theory Spec2Isabelle
  imports Main
begin

section \<open>Values and the object store\<close>

text \<open>
  The library stores arbitrary JavaScript values. A value is a primitive or a reference
  to an object of the store; two references are identical (\<open>===\<close>) iff their addresses
  are equal. Numbers are modelled by integers, with \<open>JNaN\<close> for the one falsy
  non-zero number.
\<close>

type_synonym addr = nat

datatype jsval =
    JUndefined
  | JNull
  | JStr string
  | JNum int
  | JNaN
  | JBigInt int
  | JSym nat
  | JBool bool
  | JRef addr

text \<open>
  What \<open>Object.getPrototypeOf(obj)\<close> and \<open>proto.constructor\<close> can be, as far as
  \<open>isLikelyClassInstance\<close> distinguishes them.
\<close>

datatype ctor = CtorObject | CtorFunction string | CtorOther

datatype proto = ProtoNull | ProtoObject | ProtoCustom ctor

text \<open>
  The outcome of calling an object's own \<open>clone()\<close> method: user code, which returns a
  value or throws one.
\<close>

datatype clone_op = CloneReturns jsval | CloneThrows jsval

text \<open>
  Objects, by the cases \<open>safeClone\<close> tells apart. An error object carries its name,
  message, stack and further own fields; a regular expression its source, flags and
  \<open>lastIndex\<close>; a generic object its prototype, the outcome of its \<open>clone\<close> method if
  \<open>typeof value.clone === 'function'\<close>, and its own enumerable fields in order.
\<close>

datatype obj =
    Array "jsval list"
  | MapObj "(jsval \<times> jsval) list"
  | SetObj "jsval list"
  | ErrorObj string string "string option" "(string \<times> jsval) list"
  | DateObj int
  | RegExpObj string string nat
  | ArrayBuffer "nat list"
  | Function nat
  | Object proto "clone_op option" "(string \<times> jsval) list"

type_synonym heap = "obj list"

definition lookup :: "heap \<Rightarrow> addr \<Rightarrow> obj option" where
  "lookup h a = (if a < length h then Some (h ! a) else None)"

definition alloc :: "heap \<Rightarrow> obj \<Rightarrow> jsval \<times> heap" where
  "alloc h ob = (JRef (length h), h @ [ob])"

text \<open>\<open>Map.prototype.set\<close> and \<open>Set.prototype.add\<close> on the entry lists.\<close>

fun map_set :: "(jsval \<times> jsval) list \<Rightarrow> jsval \<Rightarrow> jsval \<Rightarrow> (jsval \<times> jsval) list" where
  "map_set [] k v = [(k, v)]"
| "map_set ((k', v') # es) k v = (if k' = k then (k, v) # es else (k', v') # map_set es k v)"

fun set_add :: "jsval list \<Rightarrow> jsval \<Rightarrow> jsval list" where
  "set_add [] x = [x]"
| "set_add (y # ys) x = (if y = x then y # ys else y # set_add ys x)"

section \<open>safeClone\<close>

fun isLikelyClassInstance :: "obj \<Rightarrow> bool" where
  "isLikelyClassInstance (Object ProtoNull c fs) = False"
| "isLikelyClassInstance (Object ProtoObject c fs) = False"
| "isLikelyClassInstance (Object (ProtoCustom CtorObject) c fs) = False"
| "isLikelyClassInstance (Object (ProtoCustom (CtorFunction nm)) c fs) = True"
| "isLikelyClassInstance (Object (ProtoCustom CtorOther) c fs) = False"
| "isLikelyClassInstance (Function f) = False"
| "isLikelyClassInstance ob = True"

text \<open>
  \<open>safeClone\<close> recurses through the store, which may be cyclic, so the model counts the
  depth of the recursion: \<open>None\<close> means that the call did not return within the given
  depth. \<open>Some (Inl e)\<close> is the exception \<open>e\<close> thrown out of the call,
  \<open>Some (Inr (v, h))\<close> the returned value and the store after the allocations.
  The three loops of the source (over array or set items, over map entries, over object
  fields) are \<open>cloneItems\<close> and \<open>cloneEntries\<close>; the fields of an object are cloned
  as the list of their values and zipped with their keys again.
\<close>

fun safeClone :: "nat \<Rightarrow> heap \<Rightarrow> jsval \<Rightarrow> (jsval + jsval \<times> heap) option"
  and cloneItems :: "nat \<Rightarrow> heap \<Rightarrow> jsval list \<Rightarrow> (jsval + jsval list \<times> heap) option"
  and cloneEntries ::
    "nat \<Rightarrow> heap \<Rightarrow> (jsval \<times> jsval) list \<Rightarrow> (jsval + (jsval \<times> jsval) list \<times> heap) option"
where
  "safeClone n h JUndefined = Some (Inr (JUndefined, h))"
| "safeClone n h JNull = Some (Inr (JNull, h))"
| "safeClone n h (JStr s) = Some (Inr (JStr s, h))"
| "safeClone n h (JNum i) = Some (Inr (JNum i, h))"
| "safeClone n h JNaN = Some (Inr (JNaN, h))"
| "safeClone n h (JBigInt i) = Some (Inr (JBigInt i, h))"
| "safeClone n h (JSym i) = Some (Inr (JSym i, h))"
| "safeClone n h (JBool b) = Some (Inr (JBool b, h))"
| "safeClone 0 h (JRef a) = None"
| "safeClone (Suc n) h (JRef a) =
     (case lookup h a of
        None \<Rightarrow> Some (Inr (JRef a, h))
      | Some (Array items) \<Rightarrow>
          (case cloneItems n h items of
             None \<Rightarrow> None
           | Some (Inl e) \<Rightarrow> Some (Inl e)
           | Some (Inr (items', h')) \<Rightarrow> Some (Inr (alloc h' (Array items'))))
      | Some (MapObj es) \<Rightarrow>
          (case cloneEntries n h es of
             None \<Rightarrow> None
           | Some (Inl e) \<Rightarrow> Some (Inl e)
           | Some (Inr (es', h')) \<Rightarrow>
               Some (Inr (alloc h' (MapObj (foldl (\<lambda>m (k, v). map_set m k v) [] es')))))
      | Some (SetObj items) \<Rightarrow>
          (case cloneItems n h items of
             None \<Rightarrow> None
           | Some (Inl e) \<Rightarrow> Some (Inl e)
           | Some (Inr (items', h')) \<Rightarrow>
               Some (Inr (alloc h' (SetObj (foldl set_add [] items')))))
      | Some (ErrorObj nm msg stack fs) \<Rightarrow>
          Some (Inr (alloc h
            (ErrorObj ''Error'' msg
               (Some (case stack of None \<Rightarrow> ''No Stack Found'' | Some st \<Rightarrow> st)) [])))
      | Some (DateObj t) \<Rightarrow> Some (Inr (alloc h (DateObj t)))
      | Some (RegExpObj src flags li) \<Rightarrow> Some (Inr (alloc h (RegExpObj src flags 0)))
      | Some (ArrayBuffer bytes) \<Rightarrow> Some (Inr (alloc h (ArrayBuffer bytes)))
      | Some (Function f) \<Rightarrow> Some (Inr (JRef a, h))
      | Some (Object p (Some (CloneReturns r)) fs) \<Rightarrow> Some (Inr (r, h))
      | Some (Object p (Some (CloneThrows e)) fs) \<Rightarrow> Some (Inl e)
      | Some (Object p None fs) \<Rightarrow>
          (if isLikelyClassInstance (Object p None fs) then Some (Inr (JRef a, h))
           else
             (case cloneItems n h (map snd fs) of
                None \<Rightarrow> None
              | Some (Inl e) \<Rightarrow> Some (Inl e)
              | Some (Inr (vs', h')) \<Rightarrow>
                  Some (Inr (alloc h' (Object ProtoObject None (zip (map fst fs) vs')))))))"
| "cloneItems n h [] = Some (Inr ([], h))"
| "cloneItems n h (x # xs) =
     (case safeClone n h x of
        None \<Rightarrow> None
      | Some (Inl e) \<Rightarrow> Some (Inl e)
      | Some (Inr (x', h1)) \<Rightarrow>
          (case cloneItems n h1 xs of
             None \<Rightarrow> None
           | Some (Inl e) \<Rightarrow> Some (Inl e)
           | Some (Inr (xs', h2)) \<Rightarrow> Some (Inr (x' # xs', h2))))"
| "cloneEntries n h [] = Some (Inr ([], h))"
| "cloneEntries n h ((k, v) # es) =
     (case safeClone n h k of
        None \<Rightarrow> None
      | Some (Inl e) \<Rightarrow> Some (Inl e)
      | Some (Inr (k', h1)) \<Rightarrow>
          (case safeClone n h1 v of
             None \<Rightarrow> None
           | Some (Inl e) \<Rightarrow> Some (Inl e)
           | Some (Inr (v', h2)) \<Rightarrow>
               (case cloneEntries n h2 es of
                  None \<Rightarrow> None
                | Some (Inl e) \<Rightarrow> Some (Inl e)
                | Some (Inr (es', h3)) \<Rightarrow> Some (Inr ((k', v') # es', h3)))))"

section \<open>The reactive engine\<close>

text \<open>
  A listener is a function object: it is subscribed, compared and removed by reference,
  so the state keeps a table of closures and the listener lists hold their indices.
  There are three kinds of closure. A user listener runs on the store and the delivered
  value; it returns, throws, or returns a promise, which settles later. The listener that
  \<open>Whispr.from\<close> installs on each source carries the input dictionary, the combining
  function and the handle it writes to. The listener that \<open>wait\<close> installs carries
  the promise it resolves and the predicate.
\<close>

datatype settled = Fulfilled jsval | Rejected jsval

datatype completion = Returned jsval | Thrown jsval | Awaiting settled

type_synonym callback = "heap \<Rightarrow> jsval \<Rightarrow> completion \<times> heap"

text \<open>A synchronous user function: \<open>Inl e\<close> when it throws \<open>e\<close>, \<open>Inr r\<close> when it returns \<open>r\<close>.\<close>

type_synonym fn = "heap \<Rightarrow> jsval \<Rightarrow> (jsval + jsval) \<times> heap"

datatype closure =
    Listener callback
  | Recompute "(string \<times> nat) list" fn nat
  | Waiter nat fn

text \<open>
  \<open>Observable\<close>: the stored value \<open>_data\<close> and the listener array. \<open>Whispr\<close>: its
  \<open>Observable\<close>, and whether the \<open>WeakRef\<close> held by its setter still dereferences
  (the garbage collector, which is outside the program, clears it).
\<close>

record observable =
  obs_data :: jsval
  obs_listeners :: "nat list"

record whispr =
  w_data :: observable
  w_alive :: bool

text \<open>
  The state of the program: the object store, the handles, the closures and promises
  created so far, the lines written by \<open>console.warn\<close>, and the notifications still
  suspended at their \<open>await\<close>. \<open>calls\<close> records every invocation of a listener by
  \<open>notify\<close> (handle, closure, delivered value); the program never reads it.
\<close>

record state =
  store :: heap
  handles :: "nat \<Rightarrow> whispr"
  next_handle :: nat
  closures :: "nat \<Rightarrow> closure"
  next_closure :: nat
  promises :: "nat \<Rightarrow> jsval option"
  next_promise :: nat
  console :: "jsval list"
  pending :: "(nat \<times> nat \<times> settled) list"
  calls :: "(nat \<times> nat \<times> jsval) list"

definition data_of :: "state \<Rightarrow> nat \<Rightarrow> jsval" where
  "data_of s h = obs_data (w_data (handles s h))"

definition listeners_of :: "state \<Rightarrow> nat \<Rightarrow> nat list" where
  "listeners_of s h = obs_listeners (w_data (handles s h))"

definition put_data :: "nat \<Rightarrow> jsval \<Rightarrow> state \<Rightarrow> state" where
  "put_data h v s =
     s\<lparr>handles := (handles s)(h := (handles s h)\<lparr>w_data := (w_data (handles s h))\<lparr>obs_data := v\<rparr>\<rparr>)\<rparr>"

definition put_listeners :: "nat \<Rightarrow> nat list \<Rightarrow> state \<Rightarrow> state" where
  "put_listeners h ls s =
     s\<lparr>handles :=
         (handles s)(h := (handles s h)\<lparr>w_data := (w_data (handles s h))\<lparr>obs_listeners := ls\<rparr>\<rparr>)\<rparr>"

text \<open>JavaScript's \<open>!data\<close>.\<close>

fun falsy :: "jsval \<Rightarrow> bool" where
  "falsy JUndefined = True"
| "falsy JNull = True"
| "falsy (JStr s) = (s = [])"
| "falsy (JNum i) = (i = 0)"
| "falsy JNaN = True"
| "falsy (JBigInt i) = (i = 0)"
| "falsy (JBool b) = (\<not> b)"
| "falsy v = False"

text \<open>\<open>Observable.unsubscribe\<close>: the filter keeps the listeners that are not \<open>cb\<close>.\<close>

definition unsubscribe :: "nat \<Rightarrow> nat \<Rightarrow> state \<Rightarrow> state" where
  "unsubscribe h cb s = put_listeners h (filter (\<lambda>listener. listener \<noteq> cb) (listeners_of s h)) s"

text \<open>The \<open>resolve\<close> of a promise: only the first call settles it.\<close>

definition resolve :: "nat \<Rightarrow> jsval \<Rightarrow> state \<Rightarrow> state" where
  "resolve p r s =
     (case promises s p of
        None \<Rightarrow> s\<lparr>promises := (promises s)(p \<mapsto> r)\<rparr>
      | Some r0 \<Rightarrow> s)"

text \<open>
  \<open>getValue\<close> of \<open>Whispr.from\<close>: read \<open>value.value\<close> of every input, which clones the
  stored value of that source as it is now, build the object of the entries, and run the
  combining function on it.
\<close>

fun readInputs ::
  "nat \<Rightarrow> (nat \<Rightarrow> whispr) \<Rightarrow> heap \<Rightarrow> (string \<times> nat) list
     \<Rightarrow> (jsval + (string \<times> jsval) list \<times> heap) option" where
  "readInputs n hs hp [] = Some (Inr ([], hp))"
| "readInputs n hs hp ((key, src) # inp) =
     (case safeClone n hp (obs_data (w_data (hs src))) of
        None \<Rightarrow> None
      | Some (Inl e) \<Rightarrow> Some (Inl e)
      | Some (Inr (v, hp1)) \<Rightarrow>
          (case readInputs n hs hp1 inp of
             None \<Rightarrow> None
           | Some (Inl e) \<Rightarrow> Some (Inl e)
           | Some (Inr (fs, hp2)) \<Rightarrow> Some (Inr ((key, v) # fs, hp2))))"

definition getValue ::
  "nat \<Rightarrow> (string \<times> nat) list \<Rightarrow> fn \<Rightarrow> state \<Rightarrow> ((jsval + jsval) \<times> state) option" where
  "getValue n inp cb s =
     (case readInputs n (handles s) (store s) inp of
        None \<Rightarrow> None
      | Some (Inl e) \<Rightarrow> Some (Inl e, s)
      | Some (Inr (fs, hp)) \<Rightarrow>
          (case alloc hp (Object ProtoObject None fs) of
             (d, hp1) \<Rightarrow> (case cb hp1 d of (r, hp2) \<Rightarrow> Some (r, s\<lparr>store := hp2\<rparr>))))"

text \<open>
  \<open>Observable.set\<close>, the \<open>forEach\<close> over the listeners, \<open>Observable.notify\<close> and the
  call of the listener, and the setter that \<open>Whispr.create\<close> returns
  (\<open>ref.deref()?.data.set(data) ?? false\<close>). The listener of a derived handle calls the
  setter of that handle, which is \<open>Observable.set\<close> again: the depth of this nesting is counted, as in
  \<open>safeClone\<close>, and \<open>None\<close> is a call that did not return within it.

  \<open>forEach\<close> runs over the array that \<open>this.listeners\<close> was when \<open>set\<close> started:
  \<open>unsubscribe\<close> replaces the array and does not change the old one.
  In \<open>notify\<close> the listener receives \<open>this._data\<close> itself. A result that is not a
  promise is inspected at once; for a promise the rest of \<open>notify\<close> is suspended and
  queued in \<open>pending\<close>.
\<close>

function (sequential) Observable_set :: "nat \<Rightarrow> nat \<Rightarrow> jsval \<Rightarrow> state \<Rightarrow> ((jsval + bool) \<times> state) option"
  and notify_each :: "nat \<Rightarrow> nat \<Rightarrow> nat list \<Rightarrow> state \<Rightarrow> state option"
  and notify :: "nat \<Rightarrow> nat \<Rightarrow> nat \<Rightarrow> state \<Rightarrow> state option"
  and invoke :: "nat \<Rightarrow> closure \<Rightarrow> jsval \<Rightarrow> state \<Rightarrow> (completion \<times> state) option"
  and setter :: "nat \<Rightarrow> nat \<Rightarrow> jsval \<Rightarrow> state \<Rightarrow> ((jsval + bool) \<times> state) option"
where
  "Observable_set n h v s =
     (case safeClone n (store s) v of
        None \<Rightarrow> None
      | Some (Inl e) \<Rightarrow> Some (Inl e, s)
      | Some (Inr (v', hp)) \<Rightarrow>
          (case notify_each n h (listeners_of s h) (put_data h v' (s\<lparr>store := hp\<rparr>)) of
             None \<Rightarrow> None
           | Some s' \<Rightarrow> Some (Inr True, s')))"
| "notify_each n h [] s = Some s"
| "notify_each n h (listener # ls) s =
     (case notify n h listener s of
        None \<Rightarrow> None
      | Some s' \<Rightarrow> notify_each n h ls s')"
| "notify n h listener s =
     (case invoke n (closures s listener) (data_of s h)
             (s\<lparr>calls := calls s @ [(h, listener, data_of s h)]\<rparr>) of
        None \<Rightarrow> None
      | Some (Returned r, s') \<Rightarrow>
          Some (if r = JStr ''STOP'' then unsubscribe h listener s' else s')
      | Some (Thrown e, s') \<Rightarrow> Some (s'\<lparr>console := console s' @ [e]\<rparr>)
      | Some (Awaiting st, s') \<Rightarrow> Some (s'\<lparr>pending := pending s' @ [(h, listener, st)]\<rparr>))"
| "invoke n (Listener f) d s =
     (case f (store s) d of (c, hp) \<Rightarrow> Some (c, s\<lparr>store := hp\<rparr>))"
| "invoke n (Waiter p cb) d s =
     (if falsy d then Some (Returned JUndefined, s)
      else
        (case cb (store s) d of
           (Inl e, hp) \<Rightarrow> Some (Thrown e, s\<lparr>store := hp\<rparr>)
         | (Inr r, hp) \<Rightarrow>
             (if r = JNull \<or> r = JUndefined then Some (Returned JUndefined, s\<lparr>store := hp\<rparr>)
              else Some (Returned (JStr ''STOP''), resolve p r (s\<lparr>store := hp\<rparr>)))))"
| "invoke 0 (Recompute inp cb target) d s = None"
| "invoke (Suc n) (Recompute inp cb target) d s =
     (case getValue n inp cb s of
        None \<Rightarrow> None
      | Some (Inl e, s1) \<Rightarrow> Some (Thrown e, s1)
      | Some (Inr v, s1) \<Rightarrow>
          (case setter n target v s1 of
             None \<Rightarrow> None
           | Some (Inl e, s2) \<Rightarrow> Some (Thrown e, s2)
           | Some (Inr b, s2) \<Rightarrow> Some (Returned JUndefined, s2)))"
| "setter n h v s =
     (if w_alive (handles s h) then Observable_set n h v s else Some (Inr False, s))"

  by pat_completeness auto

text \<open>
  Every call passes the depth on, and only the listener of a derived handle lowers it; inside
  one depth \<open>setter\<close> calls \<open>Observable_set\<close>, which calls \<open>notify_each\<close>,
  which calls \<open>notify\<close>, which calls \<open>invoke\<close>.
\<close>

termination
  by (relation "measures [\<lambda>x. case x of
      Inl (Inl (n, h, v, s)) \<Rightarrow> n
    | Inl (Inr (n, h, ls, s)) \<Rightarrow> n
    | Inr (Inl (n, h, l, s)) \<Rightarrow> n
    | Inr (Inr (Inl (n, c, d, s))) \<Rightarrow> n
    | Inr (Inr (Inr (n, h, v, s))) \<Rightarrow> n,
    \<lambda>x. case x of
      Inl (Inl (n, h, v, s)) \<Rightarrow> 3
    | Inl (Inr (n, h, ls, s)) \<Rightarrow> 2
    | Inr (Inl (n, h, l, s)) \<Rightarrow> 1
    | Inr (Inr (Inl (n, c, d, s))) \<Rightarrow> 0
    | Inr (Inr (Inr (n, h, v, s))) \<Rightarrow> 4,
    \<lambda>x. case x of
      Inl (Inl (n, h, v, s)) \<Rightarrow> 0
    | Inl (Inr (n, h, ls, s)) \<Rightarrow> length ls
    | Inr (Inl (n, h, l, s)) \<Rightarrow> 0
    | Inr (Inr (Inl (n, c, d, s))) \<Rightarrow> 0
    | Inr (Inr (Inr (n, h, v, s))) \<Rightarrow> 0]") auto

text \<open>
  The rest of \<open>notify\<close> for the oldest suspended notification, run when the promise
  that its listener returned has settled.
\<close>

definition resume :: "state \<Rightarrow> state" where
  "resume s =
     (case pending s of
        [] \<Rightarrow> s
      | (h, listener, Fulfilled r) # rest \<Rightarrow>
          (if r = JStr ''STOP'' then unsubscribe h listener (s\<lparr>pending := rest\<rparr>)
           else s\<lparr>pending := rest\<rparr>)
      | (h, listener, Rejected e) # rest \<Rightarrow> s\<lparr>pending := rest, console := console s @ [e]\<rparr>)"

text \<open>The getter \<open>value\<close> and \<open>subscribe\<close> of \<open>Observable\<close>, to which \<open>Whispr\<close> delegates.\<close>

definition Observable_value :: "nat \<Rightarrow> nat \<Rightarrow> state \<Rightarrow> ((jsval + jsval) \<times> state) option" where
  "Observable_value n h s =
     (case safeClone n (store s) (data_of s h) of
        None \<Rightarrow> None
      | Some (Inl e) \<Rightarrow> Some (Inl e, s)
      | Some (Inr (v, hp)) \<Rightarrow> Some (Inr v, s\<lparr>store := hp\<rparr>))"

definition Observable_subscribe :: "nat \<Rightarrow> nat \<Rightarrow> nat \<Rightarrow> bool \<Rightarrow> state \<Rightarrow> state option" where
  "Observable_subscribe n h cb immediate s =
     (if immediate then notify n h cb (put_listeners h (listeners_of s h @ [cb]) s)
      else Some (put_listeners h (listeners_of s h @ [cb]) s))"

text \<open>
  \<open>Whispr.create\<close> returns the new handle; its setter is \<open>setter\<close> at that handle. The
  registration of \<open>onDie\<close> has no effect on the values and is left out, as is the table
  \<open>strongRefs\<close> in \<open>Whispr.from\<close>: both only concern the garbage collector.
\<close>

definition Whispr_create :: "nat \<Rightarrow> jsval \<Rightarrow> state \<Rightarrow> ((jsval + nat) \<times> state) option" where
  "Whispr_create n v s =
     (case safeClone n (store s) v of
        None \<Rightarrow> None
      | Some (Inl e) \<Rightarrow> Some (Inl e, s)
      | Some (Inr (v', hp)) \<Rightarrow>
          Some (Inr (next_handle s),
            s\<lparr>store := hp,
              handles := (handles s)(next_handle s :=
                \<lparr>w_data = \<lparr>obs_data = v', obs_listeners = []\<rparr>, w_alive = True\<rparr>),
              next_handle := Suc (next_handle s)\<rparr>))"

definition Whispr_value :: "nat \<Rightarrow> nat \<Rightarrow> state \<Rightarrow> ((jsval + jsval) \<times> state) option" where
  "Whispr_value n h s = Observable_value n h s"

definition Whispr_subscribe :: "nat \<Rightarrow> nat \<Rightarrow> nat \<Rightarrow> bool \<Rightarrow> state \<Rightarrow> state option" where
  "Whispr_subscribe n h cb immediate s = Observable_subscribe n h cb immediate s"

text \<open>
  \<open>wait\<close> creates the promise and the listener and subscribes it; \<open>subscribe\<close> is called
  with one argument, so \<open>immediate\<close> has its default \<open>true\<close>. The result is the promise.
\<close>

definition Whispr_wait :: "nat \<Rightarrow> nat \<Rightarrow> fn \<Rightarrow> state \<Rightarrow> (nat \<times> state) option" where
  "Whispr_wait n h cb s =
     (case Whispr_subscribe n h (next_closure s) True
             (s\<lparr>promises := (promises s)(next_promise s := None),
                next_promise := Suc (next_promise s),
                closures := (closures s)(next_closure s := Waiter (next_promise s) cb),
                next_closure := Suc (next_closure s)\<rparr>) of
        None \<Rightarrow> None
      | Some s' \<Rightarrow> Some (next_promise s, s'))"

text \<open>
  \<open>Whispr.from\<close>: the first \<open>getValue()\<close>, the new handle, and one listener per input,
  each subscribed with the default \<open>immediate = true\<close>.
\<close>

fun subscribe_inputs ::
  "nat \<Rightarrow> (string \<times> nat) list \<Rightarrow> fn \<Rightarrow> nat \<Rightarrow> nat list \<Rightarrow> state \<Rightarrow> state option" where
  "subscribe_inputs n inp cb target [] s = Some s"
| "subscribe_inputs n inp cb target (src # srcs) s =
     (case Whispr_subscribe n src (next_closure s) True
             (s\<lparr>closures := (closures s)(next_closure s := Recompute inp cb target),
                next_closure := Suc (next_closure s)\<rparr>) of
        None \<Rightarrow> None
      | Some s' \<Rightarrow> subscribe_inputs n inp cb target srcs s')"

definition Whispr_from ::
  "nat \<Rightarrow> (string \<times> nat) list \<Rightarrow> fn \<Rightarrow> state \<Rightarrow> ((jsval + nat) \<times> state) option" where
  "Whispr_from n inp cb s =
     (case getValue n inp cb s of
        None \<Rightarrow> None
      | Some (Inl e, s1) \<Rightarrow> Some (Inl e, s1)
      | Some (Inr v, s1) \<Rightarrow>
          (case Whispr_create n v s1 of
             None \<Rightarrow> None
           | Some (Inl e, s2) \<Rightarrow> Some (Inl e, s2)
           | Some (Inr d, s2) \<Rightarrow>
               (case subscribe_inputs n inp cb d (map snd inp) s2 of
                  None \<Rightarrow> None
                | Some s3 \<Rightarrow> Some (Inr d, s3))))"

section \<open>Predicates on values of the store\<close>

text \<open>
  \<open>clonable n h v\<close>: followed the way \<open>safeClone\<close> follows it, the structure under
  \<open>v\<close> has depth at most \<open>n\<close> (so no cycle lies on these paths) and meets no object
  whose own \<open>clone()\<close> throws.
\<close>

fun clonable :: "nat \<Rightarrow> heap \<Rightarrow> jsval \<Rightarrow> bool" where
  "clonable 0 h (JRef a) = False"
| "clonable (Suc n) h (JRef a) =
     (case lookup h a of
        None \<Rightarrow> False
      | Some (Array items) \<Rightarrow> list_all (clonable n h) items
      | Some (MapObj es) \<Rightarrow> list_all (\<lambda>(k, v). clonable n h k \<and> clonable n h v) es
      | Some (SetObj items) \<Rightarrow> list_all (clonable n h) items
      | Some (Object p (Some (CloneReturns r)) fs) \<Rightarrow> True
      | Some (Object p (Some (CloneThrows e)) fs) \<Rightarrow> False
      | Some (Object p None fs) \<Rightarrow>
          isLikelyClassInstance (Object p None fs) \<or> list_all (clonable n h) (map snd fs)
      | Some ob \<Rightarrow> True)"
| "clonable n h v = True"

text \<open>
  The objects that \<open>safeClone\<close> returns as they are: functions, and instances of a class
  that has no \<open>clone\<close> method.
\<close>

fun uncloneable :: "obj \<Rightarrow> bool" where
  "uncloneable (Function f) = True"
| "uncloneable (Object p None fs) = isLikelyClassInstance (Object p None fs)"
| "uncloneable ob = False"

text \<open>
  \<open>plain n h v\<close>: the values of depth at most \<open>n\<close> built from primitives, arrays, maps
  and sets (whose keys and members are pairwise different, as in every \<open>Map\<close> and
  \<open>Set\<close>), dates, buffers, regular expressions that have not matched yet, errors that
  are plain \<open>Error\<close>s with a stack, records with the prototype of \<open>Object\<close> and without
  a \<open>clone\<close> method, and the uncloneable objects.
\<close>

fun plain :: "nat \<Rightarrow> heap \<Rightarrow> jsval \<Rightarrow> bool" where
  "plain 0 h (JRef a) = False"
| "plain (Suc n) h (JRef a) =
     (case lookup h a of
        None \<Rightarrow> False
      | Some (Array items) \<Rightarrow> list_all (plain n h) items
      | Some (MapObj es) \<Rightarrow>
          distinct (map fst es) \<and> list_all (\<lambda>(k, v). plain n h k \<and> plain n h v) es
      | Some (SetObj items) \<Rightarrow> distinct items \<and> list_all (plain n h) items
      | Some (ErrorObj nm msg stack fs) \<Rightarrow> nm = ''Error'' \<and> stack \<noteq> None \<and> fs = []
      | Some (DateObj t) \<Rightarrow> True
      | Some (RegExpObj src flags li) \<Rightarrow> li = 0
      | Some (ArrayBuffer bytes) \<Rightarrow> True
      | Some (Function f) \<Rightarrow> True
      | Some (Object p (Some c) fs) \<Rightarrow> False
      | Some (Object p None fs) \<Rightarrow>
          isLikelyClassInstance (Object p None fs) \<or>
          (p = ProtoObject \<and> list_all (plain n h) (map snd fs)))"
| "plain n h v = True"

text \<open>
  Two objects are of the same kind, agree on their own data, and have children related by
  \<open>R\<close>; and all children of an object satisfy \<open>P\<close>.
\<close>

definition obj_rel :: "(jsval \<Rightarrow> jsval \<Rightarrow> bool) \<Rightarrow> obj \<Rightarrow> obj \<Rightarrow> bool" where
  "obj_rel R ob1 ob2 =
     (case ob1 of
        Array xs \<Rightarrow> (case ob2 of Array ys \<Rightarrow> list_all2 R xs ys | _ \<Rightarrow> False)
      | MapObj es \<Rightarrow>
          (case ob2 of
             MapObj fs \<Rightarrow> list_all2 (\<lambda>(k, v) (k', v'). R k k' \<and> R v v') es fs
           | _ \<Rightarrow> False)
      | SetObj xs \<Rightarrow> (case ob2 of SetObj ys \<Rightarrow> list_all2 R xs ys | _ \<Rightarrow> False)
      | ErrorObj n1 m1 s1 f1 \<Rightarrow>
          (case ob2 of
             ErrorObj n2 m2 s2 f2 \<Rightarrow>
               n1 = n2 \<and> m1 = m2 \<and> s1 = s2 \<and> map fst f1 = map fst f2 \<and>
               list_all2 R (map snd f1) (map snd f2)
           | _ \<Rightarrow> False)
      | DateObj t \<Rightarrow> (case ob2 of DateObj u \<Rightarrow> t = u | _ \<Rightarrow> False)
      | RegExpObj s1 f1 l1 \<Rightarrow>
          (case ob2 of RegExpObj s2 f2 l2 \<Rightarrow> s1 = s2 \<and> f1 = f2 \<and> l1 = l2 | _ \<Rightarrow> False)
      | ArrayBuffer b1 \<Rightarrow> (case ob2 of ArrayBuffer b2 \<Rightarrow> b1 = b2 | _ \<Rightarrow> False)
      | Function f \<Rightarrow> False
      | Object p1 c1 f1 \<Rightarrow>
          (case ob2 of
             Object p2 c2 f2 \<Rightarrow>
               p1 = p2 \<and> c1 = c2 \<and> map fst f1 = map fst f2 \<and>
               list_all2 R (map snd f1) (map snd f2)
           | _ \<Rightarrow> False))"

fun obj_all :: "(jsval \<Rightarrow> bool) \<Rightarrow> obj \<Rightarrow> bool" where
  "obj_all P (Array xs) = list_all P xs"
| "obj_all P (MapObj es) = list_all (\<lambda>(k, v). P k \<and> P v) es"
| "obj_all P (SetObj xs) = list_all P xs"
| "obj_all P (ErrorObj nm msg stack fs) = list_all P (map snd fs)"
| "obj_all P (Object p c fs) = list_all P (map snd fs)"
| "obj_all P ob = True"

text \<open>
  Deep equality of two values of one store, down to depth \<open>n\<close>: equal primitives, or
  references to objects of the same kind with the same data and deeply equal children.
  An uncloneable object is deeply equal to itself only.
\<close>

fun deep_eq :: "nat \<Rightarrow> heap \<Rightarrow> jsval \<Rightarrow> jsval \<Rightarrow> bool" where
  "deep_eq 0 h (JRef a) (JRef b) = False"
| "deep_eq (Suc n) h (JRef a) (JRef b) =
     (case lookup h a of
        None \<Rightarrow> False
      | Some oa \<Rightarrow>
          (case lookup h b of
             None \<Rightarrow> False
           | Some ob \<Rightarrow> if uncloneable oa then a = b else obj_rel (deep_eq n h) oa ob))"
| "deep_eq n h v w = (v = w)"

text \<open>
  \<open>fresh_from n b h v\<close>: every object under \<open>v\<close>, down to depth \<open>n\<close>, is uncloneable
  or lies at an address from \<open>b\<close> on, that is, was allocated after the store had \<open>b\<close>
  objects.
\<close>

fun fresh_from :: "nat \<Rightarrow> nat \<Rightarrow> heap \<Rightarrow> jsval \<Rightarrow> bool" where
  "fresh_from 0 b h (JRef a) = False"
| "fresh_from (Suc n) b h (JRef a) =
     (case lookup h a of
        None \<Rightarrow> False
      | Some ob \<Rightarrow> uncloneable ob \<or> (b \<le> a \<and> obj_all (fresh_from n b h) ob))"
| "fresh_from n b h v = True"

text \<open>
  What the clone \<open>v'\<close> of a plain value \<open>v\<close> is: \<open>v\<close> itself, or an address that
  the store \<open>h\<close> did not have and the store \<open>h'\<close> after the clone has.
\<close>

definition kept_or_new :: "heap \<Rightarrow> heap \<Rightarrow> jsval \<Rightarrow> jsval \<Rightarrow> bool" where
  "kept_or_new h h' v v' \<longleftrightarrow>
     (v' = v \<and> (\<forall>a. v = JRef a \<longrightarrow> a < length h)) \<or>
     (\<exists>c. v' = JRef c \<and> length h \<le> c \<and> c < length h')"

section \<open>Predicates on states and closures\<close>

fun primitive :: "jsval \<Rightarrow> bool" where
  "primitive (JRef a) = False"
| "primitive v = True"

fun is_recompute :: "closure \<Rightarrow> bool" where
  "is_recompute (Recompute inp cb target) = True"
| "is_recompute c = False"

text \<open>A closure that leaves the store as it finds it.\<close>

fun quiet :: "closure \<Rightarrow> bool" where
  "quiet (Listener f) = (\<forall>hp d. snd (f hp d) = hp)"
| "quiet (Waiter p cb) = (\<forall>hp d. snd (cb hp d) = hp)"
| "quiet (Recompute inp cb target) = False"

text \<open>
  A user function that neither throws nor touches the store: a predicate \<open>q\<close> on the
  delivered value, and a combining function \<open>g\<close> on the entries of the object that
  \<open>getValue\<close> passes to it.
\<close>

definition pure_pred :: "(jsval \<Rightarrow> jsval) \<Rightarrow> fn" where
  "pure_pred q = (\<lambda>hp d. (Inr (q d), hp))"

definition pure_fn :: "((string \<times> jsval) list \<Rightarrow> jsval) \<Rightarrow> fn" where
  "pure_fn g =
     (\<lambda>hp d.
        case d of
          JRef a \<Rightarrow>
            (case lookup hp a of
               Some (Object p c fs) \<Rightarrow> (Inr (g fs), hp)
             | _ \<Rightarrow> (Inr JUndefined, hp))
        | _ \<Rightarrow> (Inr JUndefined, hp))"

text \<open>The caller writes the values \<open>vs\<close> to the handle, one after the other.\<close>

fun write_all :: "nat \<Rightarrow> nat \<Rightarrow> jsval list \<Rightarrow> state \<Rightarrow> state option" where
  "write_all n h [] s = Some s"
| "write_all n h (v # vs) s =
     (case setter n h v s of
        None \<Rightarrow> None
      | Some (r, s') \<Rightarrow> write_all n h vs s')"

text \<open>
  What a notification of listeners other than those of derived handles leaves as it is:
  the closures, the counters, the stored value and the liveness of every handle, and the
  listeners of every handle but \<open>h\<close>, which can only lose listeners.
\<close>

definition local_step :: "nat \<Rightarrow> state \<Rightarrow> state \<Rightarrow> bool" where
  "local_step h s s' \<longleftrightarrow>
     closures s' = closures s \<and> next_closure s' = next_closure s \<and>
     next_handle s' = next_handle s \<and> next_promise s' = next_promise s \<and>
     (\<forall>x. data_of s' x = data_of s x) \<and>
     (\<forall>x. w_alive (handles s' x) = w_alive (handles s x)) \<and>
     (\<forall>x. x \<noteq> h \<longrightarrow> listeners_of s' x = listeners_of s x) \<and>
     set (listeners_of s' h) \<subseteq> set (listeners_of s h)"

text \<open>
  Between \<open>s\<close> and \<open>s'\<close> the listener \<open>l\<close> was not invoked for the handle \<open>h\<close>,
  and it is not among the listeners of \<open>h\<close> in \<open>s'\<close>.
\<close>

definition untouched :: "nat \<Rightarrow> nat \<Rightarrow> state \<Rightarrow> state \<Rightarrow> bool" where
  "untouched h l s s' \<longleftrightarrow>
     l \<notin> set (listeners_of s' h) \<and> (\<exists>cs. calls s' = calls s @ cs \<and> (\<forall>d. (h, l, d) \<notin> set cs))"

text \<open>
  A result of the predicate of \<open>wait\<close> that is \<open>null\<close> or \<open>undefined\<close>; and the
  delivered values on which the listener of \<open>wait\<close> resolves, for a predicate \<open>q\<close>.
\<close>

fun absent :: "jsval \<Rightarrow> bool" where
  "absent JNull = True"
| "absent JUndefined = True"
| "absent v = False"

definition matches :: "(jsval \<Rightarrow> jsval) \<Rightarrow> jsval \<Rightarrow> bool" where
  "matches q d \<longleftrightarrow> \<not> falsy d \<and> \<not> absent (q d)"

text \<open>
  What every write to \<open>h\<close> keeps, for the listener \<open>l\<close> of a \<open>wait\<close> with the
  promise \<open>p\<close>: the handle is alive, its listeners are user listeners or waiters, no
  other of them resolves \<open>p\<close>, and \<open>l\<close> is subscribed exactly as long as \<open>p\<close> is
  pending.
\<close>

definition waiting :: "nat \<Rightarrow> nat \<Rightarrow> nat \<Rightarrow> (jsval \<Rightarrow> jsval) \<Rightarrow> state \<Rightarrow> bool" where
  "waiting h l p q s \<longleftrightarrow>
     w_alive (handles s h) \<and>
     (\<forall>x \<in> set (listeners_of s h). \<not> is_recompute (closures s x)) \<and>
     closures s l = Waiter p (pure_pred q) \<and>
     (\<forall>x \<in> set (listeners_of s h). x \<noteq> l \<longrightarrow> (\<forall>cb. closures s x \<noteq> Waiter p cb)) \<and>
     (l \<in> set (listeners_of s h) \<longleftrightarrow> promises s p = None)"

text \<open>
  The entries that \<open>getValue\<close> reads in the state \<open>s\<close>: for every key of the
  dictionary the value that its source holds in \<open>s\<close>.
\<close>

definition entries_of :: "state \<Rightarrow> (string \<times> nat) list \<Rightarrow> (string \<times> jsval) list" where
  "entries_of s inp = map (\<lambda>(key, src). (key, data_of s src)) inp"

text \<open>
  What \<open>Whispr.from\<close> over the dictionary \<open>inp\<close> with the combining function \<open>g\<close>
  has set up, and what every write to a source keeps: the derived handle \<open>d\<close> is alive
  and is not one of its sources, every source has a listener that recomputes \<open>d\<close> from
  \<open>inp\<close> with \<open>g\<close>, the other listeners of the sources and the listeners of \<open>d\<close>
  are user listeners or waiters, and the sources hold primitives.
\<close>

definition derived :: "(string \<times> nat) list \<Rightarrow> ((string \<times> jsval) list \<Rightarrow> jsval) \<Rightarrow> nat \<Rightarrow> state \<Rightarrow> bool" where
  "derived inp g d s \<longleftrightarrow>
     w_alive (handles s d) \<and> d \<notin> snd ` set inp \<and>
     (\<forall>src \<in> snd ` set inp. \<forall>x \<in> set (listeners_of s src).
        \<not> is_recompute (closures s x) \<or> closures s x = Recompute inp (pure_fn g) d) \<and>
     (\<forall>src \<in> snd ` set inp. \<exists>x \<in> set (listeners_of s src).
        closures s x = Recompute inp (pure_fn g) d) \<and>
     (\<forall>x \<in> set (listeners_of s d). \<not> is_recompute (closures s x)) \<and>
     (\<forall>src \<in> snd ` set inp. primitive (data_of s src))"

text \<open>The part of \<open>derived\<close> that one recomputation needs.\<close>

definition target_ready :: "(string \<times> nat) list \<Rightarrow> nat \<Rightarrow> state \<Rightarrow> bool" where
  "target_ready inp d s \<longleftrightarrow>
     w_alive (handles s d) \<and> d \<notin> snd ` set inp \<and>
     (\<forall>x \<in> set (listeners_of s d). \<not> is_recompute (closures s x)) \<and>
     (\<forall>src \<in> snd ` set inp. primitive (data_of s src))"

text \<open>
  What a call leaves alone: the closures, the counters and the liveness of every handle;
  the values outside \<open>D\<close>; the listeners outside \<open>L\<close>; and it subscribes nothing.
\<close>

definition frame :: "nat set \<Rightarrow> nat set \<Rightarrow> state \<Rightarrow> state \<Rightarrow> bool" where
  "frame D L s s' \<longleftrightarrow>
     closures s' = closures s \<and> next_closure s' = next_closure s \<and>
     next_handle s' = next_handle s \<and>
     (\<forall>x. w_alive (handles s' x) = w_alive (handles s x)) \<and>
     (\<forall>x. x \<notin> D \<longrightarrow> data_of s' x = data_of s x) \<and>
     (\<forall>x. x \<notin> L \<longrightarrow> listeners_of s' x = listeners_of s x) \<and>
     (\<forall>x. set (listeners_of s' x) \<subseteq> set (listeners_of s x))"

text \<open>
  What holds while \<open>Whispr.from\<close> subscribes its listeners, one source after the other:
  the derived handle has no listener yet, and the listeners of the sources were created
  earlier and are user listeners, waiters, or listeners that recompute \<open>d\<close>.
\<close>

definition subscribing :: "(string \<times> nat) list \<Rightarrow> ((string \<times> jsval) list \<Rightarrow> jsval) \<Rightarrow> nat \<Rightarrow> state \<Rightarrow> bool" where
  "subscribing inp g d s \<longleftrightarrow>
     target_ready inp d s \<and> listeners_of s d = [] \<and>
     (\<forall>src \<in> snd ` set inp. \<forall>x \<in> set (listeners_of s src).
        x < next_closure s \<and>
        (\<not> is_recompute (closures s x) \<or> closures s x = Recompute inp (pure_fn g) d))"

section \<open>Example states\<close>

text \<open>The state of a program that has created nothing yet.\<close>

definition init :: state where
  "init =
     \<lparr>store = [],
      handles = (\<lambda>h. \<lparr>w_data = \<lparr>obs_data = JUndefined, obs_listeners = []\<rparr>, w_alive = False\<rparr>),
      next_handle = 0,
      closures = (\<lambda>l. Listener (\<lambda>hp d. (Returned JUndefined, hp))),
      next_closure = 0,
      promises = (\<lambda>p. None),
      next_promise = 0,
      console = [],
      pending = [],
      calls = []\<rparr>"

text \<open>The listener \<open>(o) => { o.a = 2 }\<close>.\<close>

definition set_field_a :: callback where
  "set_field_a hp d =
     (case d of
        JRef a \<Rightarrow>
          (case lookup hp a of
             Some (Object p c fs) \<Rightarrow> (Returned JUndefined, hp[a := Object p c [(''a'', JNum 2)]])
           | _ \<Rightarrow> (Returned JUndefined, hp))
      | _ \<Rightarrow> (Returned JUndefined, hp))"

text \<open>A program that holds the object \<open>{a: 1}\<close> and the listener above.\<close>

definition record_state :: state where
  "record_state =
     init\<lparr>store := [Object ProtoObject None [(''a'', JNum 1)]],
          closures := (closures init)(0 := Listener set_field_a),
          next_closure := 1\<rparr>"

text \<open>A program that holds \<open>new Point(1)\<close>, an instance of a class without \<open>clone\<close>.\<close>

definition point_state :: state where
  "point_state =
     init\<lparr>store := [Object (ProtoCustom (CtorFunction ''Point'')) None [(''x'', JNum 1)]]\<rparr>"

text \<open>The four special objects: a \<open>TypeError\<close> with a field, a date, a regular expression
  that has matched once, and a buffer.\<close>

definition special_heap :: heap where
  "special_heap =
     [ErrorObj ''TypeError'' ''bad'' None [(''code'', JNum 42)],
      DateObj 1700000000000,
      RegExpObj ''a+'' ''g'' 3,
      ArrayBuffer [1, 2, 3]]"

text \<open>The object \<open>{a: 1, nested: {b: 2, f: () => 0}}\<close>.\<close>

definition nested_heap :: heap where
  "nested_heap =
     [Object ProtoObject None [(''a'', JNum 1), (''nested'', JRef 1)],
      Object ProtoObject None [(''b'', JNum 2), (''f'', JRef 2)],
      Function 0]"

text \<open>A live handle that holds 0, in a program that holds an object whose \<open>clone()\<close> throws.\<close>

definition thrower_cell :: state where
  "thrower_cell =
     init\<lparr>store := [Object ProtoObject (Some (CloneThrows (JStr ''boom''))) []],
          handles := (handles init)(0 :=
            \<lparr>w_data = \<lparr>obs_data = JNum 0, obs_listeners = []\<rparr>, w_alive = True\<rparr>),
          next_handle := 1\<rparr>"

text \<open>
  A listener that throws, a listener that returns \<open>STOP\<close>, and a program with one
  live handle 0 that holds \<open>d\<close> and has the listeners \<open>ls\<close>: closure 0 is the
  throwing listener, closure 1 the stopping one, every other closure returns nothing.
\<close>

definition throwing_listener :: callback where
  "throwing_listener hp d = (Thrown (JStr ''oops''), hp)"

definition stopping_listener :: callback where
  "stopping_listener hp d = (Returned (JStr ''STOP''), hp)"

definition cell_state :: "jsval \<Rightarrow> nat list \<Rightarrow> state" where
  "cell_state d ls =
     init\<lparr>handles := (handles init)(0 :=
            \<lparr>w_data = \<lparr>obs_data = d, obs_listeners = ls\<rparr>, w_alive = True\<rparr>),
          next_handle := 1,
          closures := (closures init)(0 := Listener throwing_listener,
            1 := Listener stopping_listener),
          next_closure := 3\<rparr>"

text \<open>
  The states of the program of \<open>record_state\<close> after \<open>Whispr.create\<close> of its object,
  and after the subscription of its listener; and of the program of \<open>point_state\<close>
  after \<open>Whispr.create\<close> of its object.
\<close>

definition record_cell :: state where
  "record_cell =
     record_state\<lparr>store := [Object ProtoObject None [(''a'', JNum 1)],
                            Object ProtoObject None [(''a'', JNum 1)]],
                  handles := (handles init)(0 :=
                    \<lparr>w_data = \<lparr>obs_data = JRef 1, obs_listeners = []\<rparr>, w_alive = True\<rparr>),
                  next_handle := 1\<rparr>"

definition record_cell_notified :: state where
  "record_cell_notified =
     record_cell\<lparr>store := [Object ProtoObject None [(''a'', JNum 1)],
                           Object ProtoObject None [(''a'', JNum 2)]],
                 handles := (handles init)(0 :=
                   \<lparr>w_data = \<lparr>obs_data = JRef 1, obs_listeners = [0]\<rparr>, w_alive = True\<rparr>),
                 calls := [(0, 0, JRef 1)]\<rparr>"

definition point_cell :: state where
  "point_cell =
     point_state\<lparr>handles := (handles init)(0 :=
                   \<lparr>w_data = \<lparr>obs_data = JRef 0, obs_listeners = []\<rparr>, w_alive = True\<rparr>),
                 next_handle := 1\<rparr>"

text \<open>
  A handle and a \<open>TypeError\<close>, before the write of the error, after it, and after the
  read; and a handle with a listener that returns nothing, in a program that holds the
  nested object.
\<close>

definition error_state :: state where
  "error_state = (cell_state (JNum 0) [])\<lparr>store := [ErrorObj ''TypeError'' ''bad'' (Some ''at f'') []]\<rparr>"

definition error_written :: state where
  "error_written =
     put_data 0 (JRef 1)
       (error_state\<lparr>store := [ErrorObj ''TypeError'' ''bad'' (Some ''at f'') [],
                               ErrorObj ''Error'' ''bad'' (Some ''at f'') []]\<rparr>)"

definition error_read :: state where
  "error_read =
     error_written\<lparr>store := [ErrorObj ''TypeError'' ''bad'' (Some ''at f'') [],
                             ErrorObj ''Error'' ''bad'' (Some ''at f'') [],
                             ErrorObj ''Error'' ''bad'' (Some ''at f'') []]\<rparr>"

definition nested_state :: state where
  "nested_state = (cell_state (JNum 0) [2])\<lparr>store := nested_heap\<rparr>"

text \<open>
  The combining function \<open>({a, b}) => a + b\<close> on numbers, and a program with two live
  handles: handle 0 holds 3 and has one user listener, handle 1 holds 4.
\<close>

definition sum_fields :: "(string \<times> jsval) list \<Rightarrow> jsval" where
  "sum_fields fs =
     (case (map_of fs ''a'', map_of fs ''b'') of
        (Some (JNum x), Some (JNum y)) \<Rightarrow> JNum (x + y)
      | _ \<Rightarrow> JNaN)"

definition pair_state :: state where
  "pair_state =
     init\<lparr>handles := (handles init)(
            0 := \<lparr>w_data = \<lparr>obs_data = JNum 3, obs_listeners = [2]\<rparr>, w_alive = True\<rparr>,
            1 := \<lparr>w_data = \<lparr>obs_data = JNum 4, obs_listeners = []\<rparr>, w_alive = True\<rparr>),
          next_handle := 2,
          next_closure := 3\<rparr>"

section \<open>Properties of safeClone\<close>

declare Observable_set.simps [simp del] notify.simps [simp del] setter.simps [simp del]

lemma lookup_Some_less: "lookup h a = Some ob \<Longrightarrow> a < length h"
  by (simp add: lookup_def split: if_splits)

lemma lookup_append: "a < length h \<Longrightarrow> lookup (h @ ex) a = lookup h a"
  by (simp add: lookup_def nth_append)

lemma safeClone_RefE:
  assumes "safeClone (Suc n) h (JRef a) = Some (Inr (v', h'))"
  obtains
    (is_dangling) "lookup h a = None" "v' = JRef a" "h' = h"
  | (is_array) items items' h1 where "lookup h a = Some (Array items)"
      "cloneItems n h items = Some (Inr (items', h1))"
      "v' = JRef (length h1)" "h' = h1 @ [Array items']"
  | (is_map) es es' h1 where "lookup h a = Some (MapObj es)"
      "cloneEntries n h es = Some (Inr (es', h1))"
      "v' = JRef (length h1)" "h' = h1 @ [MapObj (foldl (\<lambda>m (k, v). map_set m k v) [] es')]"
  | (is_set) items items' h1 where "lookup h a = Some (SetObj items)"
      "cloneItems n h items = Some (Inr (items', h1))"
      "v' = JRef (length h1)" "h' = h1 @ [SetObj (foldl set_add [] items')]"
  | (is_error) nm msg stack fs where "lookup h a = Some (ErrorObj nm msg stack fs)"
      "v' = JRef (length h)"
      "h' = h @ [ErrorObj ''Error'' msg
                   (Some (case stack of None \<Rightarrow> ''No Stack Found'' | Some st \<Rightarrow> st)) []]"
  | (is_date) t where "lookup h a = Some (DateObj t)" "v' = JRef (length h)" "h' = h @ [DateObj t]"
  | (is_regexp) src flags li where "lookup h a = Some (RegExpObj src flags li)"
      "v' = JRef (length h)" "h' = h @ [RegExpObj src flags 0]"
  | (is_buffer) bytes where "lookup h a = Some (ArrayBuffer bytes)"
      "v' = JRef (length h)" "h' = h @ [ArrayBuffer bytes]"
  | (is_function) f where "lookup h a = Some (Function f)" "v' = JRef a" "h' = h"
  | (has_clone) p fs where "lookup h a = Some (Object p (Some (CloneReturns v')) fs)" "h' = h"
  | (is_instance) p fs where "lookup h a = Some (Object p None fs)"
      "isLikelyClassInstance (Object p None fs)" "v' = JRef a" "h' = h"
  | (is_record) p fs vs' h1 where "lookup h a = Some (Object p None fs)"
      "\<not> isLikelyClassInstance (Object p None fs)"
      "cloneItems n h (map snd fs) = Some (Inr (vs', h1))"
      "v' = JRef (length h1)" "h' = h1 @ [Object ProtoObject None (zip (map fst fs) vs')]"
  using assms
  by (auto simp: alloc_def split: option.splits obj.splits sum.splits clone_op.splits if_splits)

lemma cloneItems_ConsE:
  assumes "cloneItems n h (x # xs) = Some (Inr (ys, h'))"
  obtains x' h1 xs' where "safeClone n h x = Some (Inr (x', h1))"
    "cloneItems n h1 xs = Some (Inr (xs', h'))" "ys = x' # xs'"
  using assms by (auto split: option.splits sum.splits)

lemma cloneEntries_ConsE:
  assumes "cloneEntries n h ((k, v) # es) = Some (Inr (ys, h'))"
  obtains k' h1 v' h2 es' where "safeClone n h k = Some (Inr (k', h1))"
    "safeClone n h1 v = Some (Inr (v', h2))"
    "cloneEntries n h2 es = Some (Inr (es', h'))" "ys = (k', v') # es'"
  using assms by (auto split: option.splits sum.splits)

lemma safeClone_prim:
  "\<not> (\<exists>a. v = JRef a) \<Longrightarrow> safeClone n h v = Some (Inr (v, h))"
  by (cases v) auto

lemma cloneItems_extends_step:
  assumes "\<And>h v v' h'. safeClone n h v = Some (Inr (v', h')) \<Longrightarrow> \<exists>ex. h' = h @ ex"
  shows "cloneItems n h xs = Some (Inr (xs', h')) \<Longrightarrow> \<exists>ex. h' = h @ ex"
proof (induction xs arbitrary: h xs' h')
  case Nil
  then show ?case by simp
next
  case (Cons x xs)
  from Cons.prems obtain x' h1 ys where a: "safeClone n h x = Some (Inr (x', h1))"
    and b: "cloneItems n h1 xs = Some (Inr (ys, h'))"
    by (rule cloneItems_ConsE)
  from assms [OF a] Cons.IH [OF b] show ?case by auto
qed

lemma cloneEntries_extends_step:
  assumes "\<And>h v v' h'. safeClone n h v = Some (Inr (v', h')) \<Longrightarrow> \<exists>ex. h' = h @ ex"
  shows "cloneEntries n h es = Some (Inr (es', h')) \<Longrightarrow> \<exists>ex. h' = h @ ex"
proof (induction es arbitrary: h es' h')
  case Nil
  then show ?case by simp
next
  case (Cons e es)
  obtain k v where e: "e = (k, v)" by (cases e)
  from Cons.prems [unfolded e] obtain k' h1 v' h2 ys where a: "safeClone n h k = Some (Inr (k', h1))"
    and b: "safeClone n h1 v = Some (Inr (v', h2))"
    and c: "cloneEntries n h2 es = Some (Inr (ys, h'))"
    by (rule cloneEntries_ConsE)
  from assms [OF a] assms [OF b] Cons.IH [OF c] show ?case by auto
qed

lemma safeClone_extends: "safeClone n h v = Some (Inr (v', h')) \<Longrightarrow> \<exists>ex. h' = h @ ex"
proof (induction n arbitrary: h v v' h')
  case 0
  then show ?case by (cases v) auto
next
  case (Suc n)
  have items: "\<exists>ex. h' = h @ ex" if "cloneItems n h xs = Some (Inr (xs', h'))" for h xs xs' h'
    using that by (rule cloneItems_extends_step [rotated]) (rule Suc.IH)
  have entries: "\<exists>ex. h' = h @ ex" if "cloneEntries n h es = Some (Inr (es', h'))" for h es es' h'
    using that by (rule cloneEntries_extends_step [rotated]) (rule Suc.IH)
  show ?case
  proof (cases v)
    case (JRef a)
    from Suc.prems [unfolded JRef] show ?thesis
      by (cases rule: safeClone_RefE) (auto dest!: items entries)
  qed (use Suc.prems in auto)
qed


lemma clonable_append: "clonable n h v \<Longrightarrow> clonable n (h @ ex) v"
proof (induction n arbitrary: v)
  case 0
  then show ?case by (cases v) auto
next
  case (Suc n)
  show ?case
  proof (cases v)
    case (JRef a)
    with Suc.prems obtain ob where ob: "lookup h a = Some ob"
      by (auto split: option.splits)
    then have "lookup (h @ ex) a = Some ob"
      by (simp add: lookup_append lookup_Some_less)
    with Suc.prems JRef ob show ?thesis
      by (auto simp: list_all_iff split: obj.splits option.splits clone_op.splits
               intro: Suc.IH)
  qed auto
qed

lemma cloneItems_returns_step:
  assumes "\<And>h v. clonable n h v \<Longrightarrow> \<exists>v' h'. safeClone n h v = Some (Inr (v', h'))"
  shows "list_all (clonable n h) xs \<Longrightarrow> \<exists>xs' h'. cloneItems n h xs = Some (Inr (xs', h'))"
proof (induction xs arbitrary: h)
  case Nil
  then show ?case by simp
next
  case (Cons x xs)
  from Cons.prems assms [of h x] obtain x' h1 where a: "safeClone n h x = Some (Inr (x', h1))"
    by auto
  from safeClone_extends [OF a] obtain ex where "h1 = h @ ex" ..
  with Cons.prems have "list_all (clonable n h1) xs"
    by (auto simp: list_all_iff intro: clonable_append)
  from Cons.IH [OF this] a show ?case by auto
qed

lemma cloneEntries_returns_step:
  assumes "\<And>h v. clonable n h v \<Longrightarrow> \<exists>v' h'. safeClone n h v = Some (Inr (v', h'))"
  shows "list_all (\<lambda>(k, v). clonable n h k \<and> clonable n h v) es \<Longrightarrow>
    \<exists>es' h'. cloneEntries n h es = Some (Inr (es', h'))"
proof (induction es arbitrary: h)
  case Nil
  then show ?case by simp
next
  case (Cons e es)
  obtain k v where e: "e = (k, v)" by (cases e)
  from Cons.prems e assms [of h k] obtain k' h1 where a: "safeClone n h k = Some (Inr (k', h1))"
    by auto
  from safeClone_extends [OF a] obtain ex1 where h1: "h1 = h @ ex1" ..
  from Cons.prems e have "clonable n h1 v"
    by (auto simp: h1 intro: clonable_append)
  with assms [of h1 v] obtain v' h2 where b: "safeClone n h1 v = Some (Inr (v', h2))"
    by auto
  from safeClone_extends [OF b] obtain ex2 where h2: "h2 = h1 @ ex2" ..
  from Cons.prems have "list_all (\<lambda>(k, v). clonable n h2 k \<and> clonable n h2 v) es"
    by (auto simp: list_all_iff h1 h2 intro: clonable_append)
  from Cons.IH [OF this] a b e show ?case by auto
qed

lemma safeClone_returns: "clonable n h v \<Longrightarrow> \<exists>v' h'. safeClone n h v = Some (Inr (v', h'))"
proof (induction n arbitrary: h v)
  case 0
  then show ?case by (cases v) auto
next
  case (Suc n)
  have items: "\<exists>xs' h'. cloneItems n h xs = Some (Inr (xs', h'))"
    if "list_all (clonable n h) xs" for h xs
    using that by (rule cloneItems_returns_step [rotated]) (rule Suc.IH)
  have entries: "\<exists>es' h'. cloneEntries n h es = Some (Inr (es', h'))"
    if "list_all (\<lambda>(k, v). clonable n h k \<and> clonable n h v) es" for h es
    using that by (rule cloneEntries_returns_step [rotated]) (rule Suc.IH)
  show ?case
  proof (cases v)
    case (JRef a)
    with Suc.prems obtain ob where ob: "lookup h a = Some ob"
      by (auto split: option.splits)
    show ?thesis
    proof (cases ob)
      case (Array xs)
      with Suc.prems JRef ob items [of h xs] show ?thesis by (auto simp: alloc_def)
    next
      case (MapObj es)
      with Suc.prems JRef ob entries [of h es] show ?thesis by (auto simp: alloc_def)
    next
      case (SetObj xs)
      with Suc.prems JRef ob items [of h xs] show ?thesis by (auto simp: alloc_def)
    next
      case (Object p c fs)
      with Suc.prems JRef ob items [of h "map snd fs"] show ?thesis
        by (auto simp: alloc_def split: option.splits clone_op.splits)
    qed (use JRef ob in \<open>auto simp: alloc_def\<close>)
  qed auto
qed


lemma lookup_snoc_new: "lookup (h @ [ob]) (length h) = Some ob"
  by (simp add: lookup_def)

lemma obj_rel_simps [simp]:
  "obj_rel R (Array xs) ob = (\<exists>ys. ob = Array ys \<and> list_all2 R xs ys)"
  "obj_rel R (MapObj es) ob =
     (\<exists>fs. ob = MapObj fs \<and> list_all2 (\<lambda>(k, v) (k', v'). R k k' \<and> R v v') es fs)"
  "obj_rel R (SetObj xs) ob = (\<exists>ys. ob = SetObj ys \<and> list_all2 R xs ys)"
  "obj_rel R (ErrorObj n1 m1 s1 f1) ob =
     (\<exists>f2. ob = ErrorObj n1 m1 s1 f2 \<and> map fst f1 = map fst f2 \<and>
        list_all2 R (map snd f1) (map snd f2))"
  "obj_rel R (DateObj t) ob = (ob = DateObj t)"
  "obj_rel R (RegExpObj src fl l1) ob = (ob = RegExpObj src fl l1)"
  "obj_rel R (ArrayBuffer b1) ob = (ob = ArrayBuffer b1)"
  "obj_rel R (Function f) ob = False"
  "obj_rel R (Object p1 c1 f1) ob =
     (\<exists>f2. ob = Object p1 c1 f2 \<and> map fst f1 = map fst f2 \<and>
        list_all2 R (map snd f1) (map snd f2))"
  by (cases ob; auto simp: obj_rel_def)+

lemma obj_rel_mono:
  "obj_rel R ob1 ob2 \<Longrightarrow> (\<And>x y. R x y \<Longrightarrow> R' x y) \<Longrightarrow> obj_rel R' ob1 ob2"
  by (cases ob1) (auto elim!: list_all2_mono)

lemma obj_all_mono: "obj_all P ob \<Longrightarrow> (\<And>x. P x \<Longrightarrow> P' x) \<Longrightarrow> obj_all P' ob"
  by (cases ob) (auto simp: list_all_iff)

lemma plain_append: "plain n h v \<Longrightarrow> plain n (h @ ex) v"
proof (induction n arbitrary: v)
  case 0
  then show ?case by (cases v) auto
next
  case (Suc n)
  show ?case
  proof (cases v)
    case (JRef a)
    with Suc.prems obtain ob where ob: "lookup h a = Some ob"
      by (auto split: option.splits)
    then have "lookup (h @ ex) a = Some ob"
      by (simp add: lookup_append lookup_Some_less)
    with Suc.prems JRef ob show ?thesis
      by (auto simp: list_all_iff split: obj.splits option.splits intro: Suc.IH)
  qed auto
qed

lemma deep_eq_append: "deep_eq n h v w \<Longrightarrow> deep_eq n (h @ ex) v w"
proof (induction n arbitrary: v w)
  case 0
  then show ?case by (cases v; cases w) auto
next
  case (Suc n)
  show ?case
  proof (cases v)
    case v: (JRef a)
    show ?thesis
    proof (cases w)
      case w: (JRef b)
      from Suc.prems v w obtain oa ob where oa: "lookup h a = Some oa" and ob: "lookup h b = Some ob"
        by (auto split: option.splits)
      then have "lookup (h @ ex) a = Some oa" "lookup (h @ ex) b = Some ob"
        by (simp_all add: lookup_append lookup_Some_less)
      with Suc.prems v w oa ob show ?thesis
        by (auto elim!: obj_rel_mono intro: Suc.IH)
    qed (use Suc.prems v in auto)
  qed (use Suc.prems in auto)
qed

lemma fresh_from_append: "fresh_from n b h v \<Longrightarrow> fresh_from n b (h @ ex) v"
proof (induction n arbitrary: v)
  case 0
  then show ?case by (cases v) auto
next
  case (Suc n)
  show ?case
  proof (cases v)
    case (JRef a)
    with Suc.prems obtain ob where ob: "lookup h a = Some ob"
      by (auto split: option.splits)
    then have "lookup (h @ ex) a = Some ob"
      by (simp add: lookup_append lookup_Some_less)
    with Suc.prems JRef ob show ?thesis
      by (auto elim!: obj_all_mono intro: Suc.IH)
  qed auto
qed

lemma fresh_from_bound: "fresh_from n b h v \<Longrightarrow> b' \<le> b \<Longrightarrow> fresh_from n b' h v"
proof (induction n arbitrary: v)
  case 0
  then show ?case by (cases v) auto
next
  case (Suc n)
  show ?case
  proof (cases v)
    case (JRef a)
    with Suc.prems show ?thesis
      by (auto split: option.splits elim!: obj_all_mono intro: Suc.IH)
  qed auto
qed

lemma isLikelyClassInstance_proto:
  "isLikelyClassInstance (Object p c fs) = isLikelyClassInstance (Object p c' fs')"
  by (cases "Object p c fs" rule: isLikelyClassInstance.cases) auto

lemma uncloneable_obj_rel: "obj_rel R oa ob \<Longrightarrow> uncloneable ob = uncloneable oa"
proof (cases oa)
  case (Object p c fs)
  assume "obj_rel R oa ob"
  with Object obtain fs' where "ob = Object p c fs'" by auto
  with Object show ?thesis
    using isLikelyClassInstance_proto [where p = p and c = None and fs = fs and c' = None and fs' = fs']
    by (cases c) auto
qed auto

lemma list_all2_trans_on:
  assumes "\<And>x y z. R x y \<Longrightarrow> R y z \<Longrightarrow> R x z"
  shows "list_all2 R xs ys \<Longrightarrow> list_all2 R ys zs \<Longrightarrow> list_all2 R xs zs"
  by (rule list_all2_trans [where ?P1.0 = R and ?P2.0 = R]) (auto intro: assms)

lemma obj_rel_trans:
  assumes "obj_rel R oa ob" "obj_rel R ob oc"
    and tr: "\<And>x y z. R x y \<Longrightarrow> R y z \<Longrightarrow> R x z"
  shows "obj_rel R oa oc"
proof (cases oa)
  have T: "list_all2 R xs zs" if "list_all2 R xs ys" "list_all2 R ys zs" for xs ys zs
    using that by (rule list_all2_trans_on [rotated]) (auto intro: tr)
  {
    case (Array xs)
    with assms(1,2) show ?thesis by auto (erule (1) T)
  next
    case (SetObj xs)
    with assms(1,2) show ?thesis by auto (erule (1) T)
  next
    case (ErrorObj nm msg st fs)
    with assms(1,2) show ?thesis by auto (erule (1) T)
  next
    case (Object p c fs)
    with assms(1,2) show ?thesis by auto (erule (1) T)
  }
next
  case (MapObj es)
  with assms(1,2) obtain fs gs where "ob = MapObj fs" "oc = MapObj gs"
    and 1: "list_all2 (\<lambda>(k, v) (k', v'). R k k' \<and> R v v') es fs"
    and 2: "list_all2 (\<lambda>(k, v) (k', v'). R k k' \<and> R v v') fs gs"
    by auto
  from 1 2 have "list_all2 (\<lambda>(k, v) (k', v'). R k k' \<and> R v v') es gs"
    by (rule list_all2_trans_on [rotated]) (auto intro: tr)
  with MapObj \<open>oc = MapObj gs\<close> show ?thesis by simp
qed (use assms(1,2) in auto)

lemma deep_eq_trans: "deep_eq n h u v \<Longrightarrow> deep_eq n h v w \<Longrightarrow> deep_eq n h u w"
proof (induction n arbitrary: u v w)
  case 0
  then show ?case by (cases u; cases v; cases w) auto
next
  case (Suc n)
  show ?case
  proof (cases u)
    case u: (JRef a)
    show ?thesis
    proof (cases v)
      case v: (JRef b)
      show ?thesis
      proof (cases w)
        case w: (JRef c)
        from Suc.prems u v w obtain oa ob oc where oa: "lookup h a = Some oa"
          and ob: "lookup h b = Some ob" and oc: "lookup h c = Some oc"
          by (auto split: option.splits)
        show ?thesis
        proof (cases "uncloneable oa")
          case True
          with Suc.prems u v w oa ob oc show ?thesis by auto
        next
          case False
          with Suc.prems(1) u v oa ob have 1: "obj_rel (deep_eq n h) oa ob" by simp
          then have "\<not> uncloneable ob" using False by (simp add: uncloneable_obj_rel)
          with Suc.prems(2) v w ob oc have 2: "obj_rel (deep_eq n h) ob oc" by simp
          from 1 2 have "obj_rel (deep_eq n h) oa oc"
            by (rule obj_rel_trans) (rule Suc.IH)
          with False u w oa oc show ?thesis by simp
        qed
      qed (use Suc.prems u v in auto)
    qed (use Suc.prems u in auto)
  qed (use Suc.prems in auto)
qed

lemma cloneItems_extends: "cloneItems n h xs = Some (Inr (xs', h')) \<Longrightarrow> \<exists>ex. h' = h @ ex"
  by (erule cloneItems_extends_step [rotated]) (rule safeClone_extends)

lemma cloneEntries_extends: "cloneEntries n h es = Some (Inr (es', h')) \<Longrightarrow> \<exists>ex. h' = h @ ex"
  by (erule cloneEntries_extends_step [rotated]) (rule safeClone_extends)

lemma set_add_new: "x \<notin> set ys \<Longrightarrow> set_add ys x = ys @ [x]"
  by (induction ys) auto

lemma foldl_set_add_distinct:
  "distinct (ys @ xs) \<Longrightarrow> foldl set_add ys xs = ys @ xs"
  by (induction xs arbitrary: ys) (auto simp: set_add_new)

lemma map_set_new: "k \<notin> fst ` set es \<Longrightarrow> map_set es k v = es @ [(k, v)]"
  by (induction es) auto

lemma foldl_map_set_distinct:
  "distinct (map fst (ys @ es)) \<Longrightarrow> foldl (\<lambda>m (k, v). map_set m k v) ys es = ys @ es"
  by (induction es arbitrary: ys) (auto simp: map_set_new)

lemma safeClone_kept_or_new:
  assumes "plain n h v" "safeClone n h v = Some (Inr (v', h'))"
  shows "kept_or_new h h' v v'"
proof (cases v)
  case (JRef a)
  show ?thesis
  proof (cases n)
    case 0
    with assms JRef show ?thesis by simp
  next
    case (Suc m)
    from assms(2) [unfolded JRef Suc] show ?thesis
    proof (cases rule: safeClone_RefE)
      case is_dangling
      with assms(1) JRef Suc show ?thesis by simp
    next
      case (has_clone p fs)
      with assms(1) JRef Suc show ?thesis by simp
    qed (auto simp: kept_or_new_def JRef dest!: cloneItems_extends cloneEntries_extends lookup_Some_less)
  qed
qed (use assms in \<open>auto simp: kept_or_new_def\<close>)

lemma plain_ref_valid: "plain n h (JRef a) \<Longrightarrow> a < length h"
  by (cases n) (auto split: option.splits dest: lookup_Some_less)

lemma kept_or_new_fresh:
  assumes "kept_or_new h h1 x x'" "plain n h x"
    and "y' = y \<and> plain n h y \<and> y \<noteq> x \<or> (\<exists>c. y' = JRef c \<and> length h1 \<le> c)"
    and "length h \<le> length h1"
  shows "x' \<noteq> y'"
  using assms by (auto simp: kept_or_new_def dest: plain_ref_valid)

lemma cloneItems_distinct:
  assumes "list_all (plain n h) xs" "distinct xs" "cloneItems n h xs = Some (Inr (xs', h'))"
  shows "distinct xs' \<and>
    (\<forall>y' \<in> set xs'. y' \<in> set xs \<or> (\<exists>c. y' = JRef c \<and> length h \<le> c \<and> c < length h'))"
  using assms
proof (induction xs arbitrary: h xs' h')
  case Nil
  then show ?case by simp
next
  case (Cons x xs)
  from Cons.prems(3) obtain x' h1 ys where a: "safeClone n h x = Some (Inr (x', h1))"
    and b: "cloneItems n h1 xs = Some (Inr (ys, h'))" and ys: "xs' = x' # ys"
    by (rule cloneItems_ConsE)
  from safeClone_extends [OF a] obtain ex1 where h1: "h1 = h @ ex1" ..
  from cloneItems_extends [OF b] obtain ex2 where h': "h' = h1 @ ex2" ..
  from Cons.prems(1) have px: "plain n h x" and pxs: "list_all (plain n h) xs" by simp_all
  from pxs have "list_all (plain n h1) xs"
    by (auto simp: list_all_iff h1 intro: plain_append)
  from Cons.IH [OF this _ b] Cons.prems(2)
  have dys: "distinct ys"
    and ys_shape: "\<forall>y' \<in> set ys. y' \<in> set xs \<or> (\<exists>c. y' = JRef c \<and> length h1 \<le> c \<and> c < length h')"
    by auto
  from safeClone_kept_or_new [OF px a] have kx: "kept_or_new h h1 x x'" .
  have "x' \<noteq> y'" if "y' \<in> set ys" for y'
  proof (rule kept_or_new_fresh [OF kx px])
    from ys_shape that Cons.prems(2) pxs
    show "y' = y' \<and> plain n h y' \<and> y' \<noteq> x \<or> (\<exists>c. y' = JRef c \<and> length h1 \<le> c)"
      by (auto simp: list_all_iff)
    show "length h \<le> length h1" by (simp add: h1)
  qed
  then have "x' \<notin> set ys" by auto
  moreover from kx have "x' = x \<or> (\<exists>c. x' = JRef c \<and> length h \<le> c \<and> c < length h')"
    by (auto simp: kept_or_new_def h')
  ultimately show ?case using dys ys_shape by (auto simp: ys h1)
qed

lemma cloneEntries_distinct:
  assumes "list_all (\<lambda>(k, v). plain n h k \<and> plain n h v) es" "distinct (map fst es)"
    "cloneEntries n h es = Some (Inr (es', h'))"
  shows "distinct (map fst es') \<and>
    (\<forall>k' \<in> fst ` set es'. k' \<in> fst ` set es \<or> (\<exists>c. k' = JRef c \<and> length h \<le> c \<and> c < length h'))"
  using assms
proof (induction es arbitrary: h es' h')
  case Nil
  then show ?case by simp
next
  case (Cons e es)
  obtain k v where e: "e = (k, v)" by (cases e)
  from Cons.prems(3) [unfolded e] obtain k' h1 v' h2 ys
    where a: "safeClone n h k = Some (Inr (k', h1))"
      and a2: "safeClone n h1 v = Some (Inr (v', h2))"
      and b: "cloneEntries n h2 es = Some (Inr (ys, h'))" and ys: "es' = (k', v') # ys"
    by (rule cloneEntries_ConsE)
  from safeClone_extends [OF a] obtain ex1 where h1: "h1 = h @ ex1" ..
  from safeClone_extends [OF a2] obtain ex2 where h2: "h2 = h1 @ ex2" ..
  from cloneEntries_extends [OF b] obtain ex3 where h': "h' = h2 @ ex3" ..
  from Cons.prems(1) e have pk: "plain n h k"
    and pes: "list_all (\<lambda>(k, v). plain n h k \<and> plain n h v) es" by simp_all
  from pes have "list_all (\<lambda>(k, v). plain n h2 k \<and> plain n h2 v) es"
    by (auto simp: list_all_iff h1 h2 intro: plain_append)
  from Cons.IH [OF this _ b] Cons.prems(2)
  have dys: "distinct (map fst ys)"
    and ys_shape: "\<forall>y' \<in> fst ` set ys. y' \<in> fst ` set es \<or>
      (\<exists>c. y' = JRef c \<and> length h2 \<le> c \<and> c < length h')"
    by auto
  from safeClone_kept_or_new [OF pk a] have kx: "kept_or_new h h1 k k'" .
  have len: "length h \<le> length h1" "length h1 \<le> length h2" "length h2 \<le> length h'"
    by (simp_all add: h1 h2 h')
  have fresh: "k' \<noteq> y'" if "y' \<in> fst ` set ys" for y'
  proof -
    from ys_shape that consider (old) "y' \<in> fst ` set es"
      | (new) c where "y' = JRef c" "length h2 \<le> c" by blast
    then show ?thesis
    proof cases
      case old
      then obtain v0 where "(y', v0) \<in> set es" by auto
      with pes have "plain n h y'" by (auto simp: list_all_iff)
      moreover from old Cons.prems(2) e have "y' \<noteq> k" by auto
      ultimately show ?thesis
        using kept_or_new_fresh [OF kx pk, of y' y'] len by simp
    next
      case new
      with len have "\<exists>c. y' = JRef c \<and> length h1 \<le> c" by auto
      then show ?thesis
        using kept_or_new_fresh [OF kx pk, of y' y'] len by simp
    qed
  qed
  from kx len have knew: "k' = k \<or> (\<exists>c. k' = JRef c \<and> length h \<le> c \<and> c < length h')"
    by (auto simp: kept_or_new_def)
  show ?case
  proof (intro conjI ballI)
    from fresh dys show "distinct (map fst es')" by (auto simp: ys)
  next
    fix k'' assume "k'' \<in> fst ` set es'"
    then consider "k'' = k'" | "k'' \<in> fst ` set ys" by (auto simp: ys)
    then show "k'' \<in> fst ` set (e # es) \<or> (\<exists>c. k'' = JRef c \<and> length h \<le> c \<and> c < length h')"
    proof cases
      case 1
      with knew e show ?thesis by auto
    next
      case 2
      with ys_shape have "k'' \<in> fst ` set es \<or> (\<exists>c. k'' = JRef c \<and> length h2 \<le> c \<and> c < length h')"
        by blast
      with len show ?thesis by auto
    qed
  qed
qed

lemma cloneItems_lift:
  assumes step: "\<And>h v v' h'. P h v \<Longrightarrow> safeClone n h v = Some (Inr (v', h')) \<Longrightarrow> Q h' v v'"
    and P_ext: "\<And>h ex v. P h v \<Longrightarrow> P (h @ ex) v"
    and Q_ext: "\<And>h ex v v'. Q h v v' \<Longrightarrow> Q (h @ ex) v v'"
  shows "list_all (P h) xs \<Longrightarrow> cloneItems n h xs = Some (Inr (xs', h')) \<Longrightarrow>
    list_all2 (Q h') xs xs'"
proof (induction xs arbitrary: h xs' h')
  case Nil
  then show ?case by simp
next
  case (Cons x xs)
  from Cons.prems(2) obtain x' h1 ys where a: "safeClone n h x = Some (Inr (x', h1))"
    and b: "cloneItems n h1 xs = Some (Inr (ys, h'))" and ys: "xs' = x' # ys"
    by (rule cloneItems_ConsE)
  from safeClone_extends [OF a] obtain ex1 where h1: "h1 = h @ ex1" ..
  from cloneItems_extends [OF b] obtain ex2 where h': "h' = h1 @ ex2" ..
  from Cons.prems(1) have "list_all (P h1) xs"
    by (auto simp: list_all_iff h1 intro: P_ext)
  from Cons.IH [OF this b] have "list_all2 (Q h') xs ys" .
  moreover from Cons.prems(1) a have "Q h1 x x'" by (auto intro: step)
  then have "Q h' x x'" unfolding h' by (rule Q_ext)
  ultimately show ?case by (simp add: ys)
qed

lemma cloneEntries_lift:
  assumes step: "\<And>h v v' h'. P h v \<Longrightarrow> safeClone n h v = Some (Inr (v', h')) \<Longrightarrow> Q h' v v'"
    and P_ext: "\<And>h ex v. P h v \<Longrightarrow> P (h @ ex) v"
    and Q_ext: "\<And>h ex v v'. Q h v v' \<Longrightarrow> Q (h @ ex) v v'"
  shows "list_all (\<lambda>(k, v). P h k \<and> P h v) es \<Longrightarrow> cloneEntries n h es = Some (Inr (es', h')) \<Longrightarrow>
    list_all2 (\<lambda>(k, v) (k', v'). Q h' k k' \<and> Q h' v v') es es'"
proof (induction es arbitrary: h es' h')
  case Nil
  then show ?case by simp
next
  case (Cons e es)
  obtain k v where e: "e = (k, v)" by (cases e)
  from Cons.prems(2) [unfolded e] obtain k' h1 v' h2 ys
    where a: "safeClone n h k = Some (Inr (k', h1))"
      and a2: "safeClone n h1 v = Some (Inr (v', h2))"
      and b: "cloneEntries n h2 es = Some (Inr (ys, h'))" and ys: "es' = (k', v') # ys"
    by (rule cloneEntries_ConsE)
  from safeClone_extends [OF a] obtain ex1 where h1: "h1 = h @ ex1" ..
  from safeClone_extends [OF a2] obtain ex2 where h2: "h2 = h1 @ ex2" ..
  from cloneEntries_extends [OF b] obtain ex3 where h': "h' = h2 @ ex3" ..
  from Cons.prems(1) have "list_all (\<lambda>(k, v). P h2 k \<and> P h2 v) es"
    by (auto simp: list_all_iff h1 h2 intro: P_ext)
  from Cons.IH [OF this b]
  have "list_all2 (\<lambda>(k, v) (k', v'). Q h' k k' \<and> Q h' v v') es ys" .
  moreover from Cons.prems(1) a e have "Q h1 k k'" by (auto intro: step)
  then have "Q h' k k'" unfolding h' h2 append_assoc by (rule Q_ext)
  moreover from Cons.prems(1) e have pv: "P h1 v" by (auto simp: h1 intro: P_ext)
  from pv a2 have "Q h2 v v'" by (rule step)
  then have "Q h' v v'" unfolding h' by (rule Q_ext)
  ultimately show ?case by (simp add: ys e)
qed

lemma list_all2_split3:
  "list_all2 (\<lambda>x y. A y \<and> B x y \<and> C y) xs ys \<Longrightarrow>
   list_all A ys \<and> list_all2 B xs ys \<and> list_all C ys"
  by (induction rule: list_all2_induct) auto

lemma list_all2_split3_pairs:
  "list_all2 (\<lambda>(k, v) (k', v'). (A k' \<and> B k k' \<and> C k') \<and> (A v' \<and> B v v' \<and> C v')) es es' \<Longrightarrow>
   list_all (\<lambda>(k, v). A k \<and> A v) es' \<and>
   list_all2 (\<lambda>(k, v) (k', v'). B k k' \<and> B v v') es es' \<and>
   list_all (\<lambda>(k, v). C k \<and> C v) es'"
  by (induction rule: list_all2_induct) auto

lemma safeClone_plain:
  "plain n h v \<Longrightarrow> b \<le> length h \<Longrightarrow> safeClone n h v = Some (Inr (v', h')) \<Longrightarrow>
   plain n h' v' \<and> deep_eq n h' v v' \<and> fresh_from n b h' v'"
proof (induction n arbitrary: h v v' h')
  case 0
  then show ?case by (cases v) auto
next
  case (Suc n)
  define P where "P = (\<lambda>h v. plain n h v \<and> b \<le> length h)"
  define Q where "Q = (\<lambda>h' v v'. plain n h' v' \<and> deep_eq n h' v v' \<and> fresh_from n b h' v')"
  have step: "Q h' v v'" if "P h v" "safeClone n h v = Some (Inr (v', h'))" for h v v' h'
    using that Suc.IH [of h v v' h'] by (simp add: P_def Q_def)
  have P_ext: "P (h @ ex) v" if "P h v" for h ex v
    using that by (simp add: P_def plain_append)
  have Q_ext: "Q (h @ ex) v v'" if "Q h v v'" for h ex v v'
    using that by (simp add: Q_def plain_append deep_eq_append fresh_from_append)
  have items: "list_all (plain n h1) ys \<and> list_all2 (deep_eq n h1) xs ys \<and>
      list_all (fresh_from n b h1) ys"
    if "list_all (plain n h) xs" "b \<le> length h" "cloneItems n h xs = Some (Inr (ys, h1))"
    for h xs ys h1
  proof -
    from that(1,2) have "list_all (P h) xs" by (simp add: P_def list_all_iff)
    then have "list_all2 (Q h1) xs ys" using that(3)
      by (rule cloneItems_lift [where P = P and Q = Q, rotated 3]) (auto intro: step P_ext Q_ext)
    then show ?thesis unfolding Q_def by (rule list_all2_split3)
  qed
  have entries: "list_all (\<lambda>(k, v). plain n h1 k \<and> plain n h1 v) ys \<and>
      list_all2 (\<lambda>(k, v) (k', v'). deep_eq n h1 k k' \<and> deep_eq n h1 v v') es ys \<and>
      list_all (\<lambda>(k, v). fresh_from n b h1 k \<and> fresh_from n b h1 v) ys"
    if "list_all (\<lambda>(k, v). plain n h k \<and> plain n h v) es" "b \<le> length h"
      "cloneEntries n h es = Some (Inr (ys, h1))"
    for h es ys h1
  proof -
    from that(1,2) have "list_all (\<lambda>(k, v). P h k \<and> P h v) es" by (auto simp: P_def list_all_iff)
    then have "list_all2 (\<lambda>(k, v) (k', v'). Q h1 k k' \<and> Q h1 v v') es ys" using that(3)
      by (rule cloneEntries_lift [where P = P and Q = Q, rotated 3]) (auto intro: step P_ext Q_ext)
    then show ?thesis unfolding Q_def by (rule list_all2_split3_pairs)
  qed
  show ?case
  proof (cases v)
    case (JRef a)
    note pl = Suc.prems(1) [unfolded JRef]
    from pl have a: "a < length h" by (rule plain_ref_valid)
    from Suc.prems(3) [unfolded JRef] show ?thesis
    proof (cases rule: safeClone_RefE)
      case is_dangling
      with pl show ?thesis by simp
    next
      case (is_array xs ys h1)
      from cloneItems_extends [OF is_array(2)] obtain ex where h1: "h1 = h @ ex" ..
      from pl is_array(1) have "list_all (plain n h) xs" by simp
      from items [OF this Suc.prems(2) is_array(2)]
      have 1: "list_all (plain n h') ys" and 2: "list_all2 (deep_eq n h') xs ys"
        and 3: "list_all (fresh_from n b h') ys"
        by (auto simp: is_array(4) list_all_iff intro: plain_append fresh_from_append
            elim!: list_all2_mono deep_eq_append)
      have la: "lookup h' a = Some (Array xs)"
        using a is_array(1) by (simp add: is_array(4) h1 lookup_append)
      have lc: "lookup h' (length h1) = Some (Array ys)"
        by (simp add: is_array(4) lookup_snoc_new)
      from 1 2 3 la lc Suc.prems(2) show ?thesis
        by (simp add: JRef is_array(3) h1)
    next
      case (is_map es ys h1)
      from cloneEntries_extends [OF is_map(2)] obtain ex where h1: "h1 = h @ ex" ..
      from pl is_map(1) have pes: "list_all (\<lambda>(k, v). plain n h k \<and> plain n h v) es"
        and des: "distinct (map fst es)" by simp_all
      from cloneEntries_distinct [OF pes des is_map(2)] have "distinct (map fst ys)" by simp
      then have fold: "foldl (\<lambda>m (k, v). map_set m k v) [] ys = ys"
        using foldl_map_set_distinct [of "[]" ys] by simp
      from entries [OF pes Suc.prems(2) is_map(2)]
      have 1: "list_all (\<lambda>(k, v). plain n h' k \<and> plain n h' v) ys"
        and 2: "list_all2 (\<lambda>(k, v) (k', v'). deep_eq n h' k k' \<and> deep_eq n h' v v') es ys"
        and 3: "list_all (\<lambda>(k, v). fresh_from n b h' k \<and> fresh_from n b h' v) ys"
        by (auto simp: is_map(4) list_all_iff intro: plain_append fresh_from_append
            elim!: list_all2_mono deep_eq_append)
      have la: "lookup h' a = Some (MapObj es)"
        using a is_map(1) by (simp add: is_map(4) h1 lookup_append)
      have lc: "lookup h' (length h1) = Some (MapObj ys)"
        by (simp add: is_map(4) lookup_snoc_new fold)
      from 1 2 3 la lc Suc.prems(2) \<open>distinct (map fst ys)\<close> show ?thesis
        by (simp add: JRef is_map(3) h1)
    next
      case (is_set xs ys h1)
      from cloneItems_extends [OF is_set(2)] obtain ex where h1: "h1 = h @ ex" ..
      from pl is_set(1) have pxs: "list_all (plain n h) xs" and dxs: "distinct xs" by simp_all
      from cloneItems_distinct [OF pxs dxs is_set(2)] have dys: "distinct ys" by simp
      then have fold: "foldl set_add [] ys = ys"
        using foldl_set_add_distinct [of "[]" ys] by simp
      from items [OF pxs Suc.prems(2) is_set(2)]
      have 1: "list_all (plain n h') ys" and 2: "list_all2 (deep_eq n h') xs ys"
        and 3: "list_all (fresh_from n b h') ys"
        by (auto simp: is_set(4) list_all_iff intro: plain_append fresh_from_append
            elim!: list_all2_mono deep_eq_append)
      have la: "lookup h' a = Some (SetObj xs)"
        using a is_set(1) by (simp add: is_set(4) h1 lookup_append)
      have lc: "lookup h' (length h1) = Some (SetObj ys)"
        by (simp add: is_set(4) lookup_snoc_new fold)
      from 1 2 3 la lc Suc.prems(2) dys show ?thesis
        by (simp add: JRef is_set(3) h1)
    next
      case (is_error nm msg stack fs)
      have la: "lookup h' a = Some (ErrorObj nm msg stack fs)"
        using a is_error(1) by (simp add: is_error(3) lookup_append)
      from pl is_error(1) la Suc.prems(2) show ?thesis
        by (auto simp: JRef is_error(2) is_error(3) lookup_snoc_new)
    next
      case (is_date t)
      have la: "lookup h' a = Some (DateObj t)"
        using a is_date(1) by (simp add: is_date(3) lookup_append)
      from pl la Suc.prems(2) show ?thesis
        by (auto simp: JRef is_date(2) is_date(3) lookup_snoc_new)
    next
      case (is_regexp src flags li)
      have la: "lookup h' a = Some (RegExpObj src flags li)"
        using a is_regexp(1) by (simp add: is_regexp(3) lookup_append)
      from pl is_regexp(1) la Suc.prems(2) show ?thesis
        by (auto simp: JRef is_regexp(2) is_regexp(3) lookup_snoc_new)
    next
      case (is_buffer bytes)
      have la: "lookup h' a = Some (ArrayBuffer bytes)"
        using a is_buffer(1) by (simp add: is_buffer(3) lookup_append)
      from pl la Suc.prems(2) show ?thesis
        by (auto simp: JRef is_buffer(2) is_buffer(3) lookup_snoc_new)
    next
      case (is_function f)
      with pl show ?thesis by (simp add: JRef)
    next
      case (has_clone p fs)
      with pl show ?thesis by simp
    next
      case (is_instance p fs)
      with pl show ?thesis by (simp add: JRef)
    next
      case (is_record p fs ys h1)
      from cloneItems_extends [OF is_record(3)] obtain ex where h1: "h1 = h @ ex" ..
      from pl is_record(1,2) have p: "p = ProtoObject"
        and pxs: "list_all (plain n h) (map snd fs)" by simp_all
      from items [OF pxs Suc.prems(2) is_record(3)]
      have 1: "list_all (plain n h') ys" and 2: "list_all2 (deep_eq n h') (map snd fs) ys"
        and 3: "list_all (fresh_from n b h') ys"
        by (auto simp: is_record(5) list_all_iff intro: plain_append fresh_from_append
            elim!: list_all2_mono deep_eq_append)
      from 2 have len: "length ys = length fs" by (auto dest: list_all2_lengthD)
      have la: "lookup h' a = Some (Object ProtoObject None fs)"
        using a is_record(1) p by (simp add: is_record(5) h1 lookup_append)
      have lc: "lookup h' (length h1) = Some (Object ProtoObject None (zip (map fst fs) ys))"
        by (simp add: is_record(5) lookup_snoc_new)
      from 1 2 3 la lc Suc.prems(2) len show ?thesis
        by (simp add: JRef is_record(4) h1)
    qed
  qed (use Suc.prems in auto)
qed




lemma safeClone_cyclic_diverges: "safeClone n [Array [JRef 0]] (JRef 0) = None"
  by (induction n) (simp_all add: lookup_def)

text \<open>
  C9, as the code has it. An error object is rebuilt by \<open>new Error(value.message)\<close> and
  given the stack of the original: the clone is a new object that has the message and the
  stack (\<open>No Stack Found\<close> when there is none), the name \<open>Error\<close> and no further field.
  A date is rebuilt from its time, a regular expression from its source and flags (its
  \<open>lastIndex\<close> starts at 0 again), a buffer from its bytes. Each clone is a new object of
  the store, at an address that differs from the original's.
\<close>

theorem safeClone_special_objects:
  "(lookup h a = Some (ErrorObj nm msg stack fs) \<longrightarrow>
      a \<noteq> length h \<and>
      safeClone (Suc n) h (JRef a) =
        Some (Inr (JRef (length h),
          h @ [ErrorObj ''Error'' msg
                 (Some (case stack of None \<Rightarrow> ''No Stack Found'' | Some st \<Rightarrow> st)) []]))) \<and>
   (lookup h a = Some (DateObj t) \<longrightarrow>
      a \<noteq> length h \<and>
      safeClone (Suc n) h (JRef a) = Some (Inr (JRef (length h), h @ [DateObj t]))) \<and>
   (lookup h a = Some (RegExpObj src flags li) \<longrightarrow>
      a \<noteq> length h \<and>
      safeClone (Suc n) h (JRef a) = Some (Inr (JRef (length h), h @ [RegExpObj src flags 0]))) \<and>
   (lookup h a = Some (ArrayBuffer bytes) \<longrightarrow>
      a \<noteq> length h \<and>
      safeClone (Suc n) h (JRef a) = Some (Inr (JRef (length h), h @ [ArrayBuffer bytes])))"
  by (auto simp: alloc_def dest: lookup_Some_less)

theorem safeClone_special_objects_witness:
  "safeClone 1 special_heap (JRef 0) =
     Some (Inr (JRef 4, special_heap @ [ErrorObj ''Error'' ''bad'' (Some ''No Stack Found'') []])) \<and>
   safeClone 1 special_heap (JRef 1) = Some (Inr (JRef 4, special_heap @ [DateObj 1700000000000])) \<and>
   safeClone 1 special_heap (JRef 2) = Some (Inr (JRef 4, special_heap @ [RegExpObj ''a+'' ''g'' 0])) \<and>
   safeClone 1 special_heap (JRef 3) = Some (Inr (JRef 4, special_heap @ [ArrayBuffer [1, 2, 3]]))"
  using safeClone_special_objects [of special_heap 0 "''TypeError''" "''bad''" None
          "[(''code'', JNum 42)]" 0 0 "[]" "[]" 0 "[]"]
        safeClone_special_objects [of special_heap 1 "[]" "[]" None "[]" 0 1700000000000
          "[]" "[]" 0 "[]"]
        safeClone_special_objects [of special_heap 2 "[]" "[]" None "[]" 0 0
          "''a+''" "''g''" 3 "[]"]
        safeClone_special_objects [of special_heap 3 "[]" "[]" None "[]" 0 0
          "[]" "[]" 0 "[1, 2, 3]"]
  by (simp add: special_heap_def lookup_def)

text \<open>
  The clone of a \<open>TypeError\<close> that carries the field \<open>code\<close> is an \<open>Error\<close> without
  fields: neither the name nor the field is preserved.
\<close>

theorem safeClone_error_counterexample:
  "safeClone 1 [ErrorObj ''TypeError'' ''bad'' (Some ''at f'') [(''code'', JNum 42)]] (JRef 0) =
     Some (Inr (JRef 1,
       [ErrorObj ''TypeError'' ''bad'' (Some ''at f'') [(''code'', JNum 42)],
        ErrorObj ''Error'' ''bad'' (Some ''at f'') []]))"
  by (simp add: lookup_def alloc_def)



section \<open>Properties of the reactive engine\<close>

lemmas cell_defs = data_of_def listeners_of_def put_data_def put_listeners_def
  unsubscribe_def resolve_def

lemma put_data_simps [simp]:
  "data_of (put_data h v s) x = (if x = h then v else data_of s x)"
  "listeners_of (put_data h v s) x = listeners_of s x"
  "w_alive (handles (put_data h v s) x) = w_alive (handles s x)"
  "store (put_data h v s) = store s" "closures (put_data h v s) = closures s"
  "calls (put_data h v s) = calls s" "console (put_data h v s) = console s"
  "pending (put_data h v s) = pending s" "promises (put_data h v s) = promises s"
  "next_closure (put_data h v s) = next_closure s" "next_handle (put_data h v s) = next_handle s"
  "next_promise (put_data h v s) = next_promise s"
  by (simp_all add: cell_defs)

lemma put_listeners_simps [simp]:
  "data_of (put_listeners h ls s) x = data_of s x"
  "listeners_of (put_listeners h ls s) x = (if x = h then ls else listeners_of s x)"
  "w_alive (handles (put_listeners h ls s) x) = w_alive (handles s x)"
  "store (put_listeners h ls s) = store s" "closures (put_listeners h ls s) = closures s"
  "calls (put_listeners h ls s) = calls s" "console (put_listeners h ls s) = console s"
  "pending (put_listeners h ls s) = pending s" "promises (put_listeners h ls s) = promises s"
  "next_closure (put_listeners h ls s) = next_closure s"
  "next_handle (put_listeners h ls s) = next_handle s"
  "next_promise (put_listeners h ls s) = next_promise s"
  by (simp_all add: cell_defs)

lemma field_update_simps [simp]:
  "data_of (s\<lparr>store := a\<rparr>) x = data_of s x" "listeners_of (s\<lparr>store := a\<rparr>) x = listeners_of s x"
  "data_of (s\<lparr>calls := b\<rparr>) x = data_of s x" "listeners_of (s\<lparr>calls := b\<rparr>) x = listeners_of s x"
  "data_of (s\<lparr>console := c\<rparr>) x = data_of s x" "listeners_of (s\<lparr>console := c\<rparr>) x = listeners_of s x"
  "data_of (s\<lparr>pending := d\<rparr>) x = data_of s x" "listeners_of (s\<lparr>pending := d\<rparr>) x = listeners_of s x"
  "data_of (s\<lparr>promises := e\<rparr>) x = data_of s x" "listeners_of (s\<lparr>promises := e\<rparr>) x = listeners_of s x"
  "data_of (s\<lparr>closures := f\<rparr>) x = data_of s x" "listeners_of (s\<lparr>closures := f\<rparr>) x = listeners_of s x"
  "data_of (s\<lparr>next_closure := g\<rparr>) x = data_of s x"
  "listeners_of (s\<lparr>next_closure := g\<rparr>) x = listeners_of s x"
  "data_of (s\<lparr>next_promise := i\<rparr>) x = data_of s x"
  "listeners_of (s\<lparr>next_promise := i\<rparr>) x = listeners_of s x"
  by (simp_all add: cell_defs)

lemma unsubscribe_simps [simp]:
  "data_of (unsubscribe h l s) x = data_of s x"
  "listeners_of (unsubscribe h l s) x =
     (if x = h then filter (\<lambda>y. y \<noteq> l) (listeners_of s h) else listeners_of s x)"
  "w_alive (handles (unsubscribe h l s) x) = w_alive (handles s x)"
  "store (unsubscribe h l s) = store s" "closures (unsubscribe h l s) = closures s"
  "calls (unsubscribe h l s) = calls s" "console (unsubscribe h l s) = console s"
  "pending (unsubscribe h l s) = pending s" "promises (unsubscribe h l s) = promises s"
  "next_closure (unsubscribe h l s) = next_closure s"
  "next_handle (unsubscribe h l s) = next_handle s"
  "next_promise (unsubscribe h l s) = next_promise s"
  by (simp_all add: unsubscribe_def)

lemma resolve_simps [simp]:
  "data_of (resolve p r s) x = data_of s x" "listeners_of (resolve p r s) x = listeners_of s x"
  "handles (resolve p r s) = handles s"
  "store (resolve p r s) = store s" "closures (resolve p r s) = closures s"
  "calls (resolve p r s) = calls s" "console (resolve p r s) = console s"
  "pending (resolve p r s) = pending s"
  "next_closure (resolve p r s) = next_closure s" "next_handle (resolve p r s) = next_handle s"
  "next_promise (resolve p r s) = next_promise s"
  "promises (resolve p r s) q =
     (if q = p then (case promises s p of None \<Rightarrow> Some r | Some r0 \<Rightarrow> Some r0) else promises s q)"
  by (simp_all add: resolve_def data_of_def listeners_of_def split: option.splits)

lemma local_step_refl: "local_step h s s"
  by (simp add: local_step_def)

lemma local_step_trans: "local_step h s s1 \<Longrightarrow> local_step h s1 s2 \<Longrightarrow> local_step h s s2"
  by (auto simp: local_step_def)

lemma invoke_local:
  assumes "\<not> is_recompute c"
  shows "\<exists>r s'. invoke n c d s = Some (r, s') \<and> handles s' = handles s \<and>
    closures s' = closures s \<and> next_closure s' = next_closure s \<and>
    next_handle s' = next_handle s \<and> next_promise s' = next_promise s \<and>
    calls s' = calls s \<and> console s' = console s \<and> pending s' = pending s"
proof (cases c)
  case (Listener f)
  then show ?thesis by (cases "f (store s) d") simp
next
  case (Waiter p cb)
  then show ?thesis
    by (cases "cb (store s) d") (auto split: sum.splits)
qed (use assms in simp)

lemma notify_local:
  assumes "\<not> is_recompute (closures s l)"
  shows "\<exists>s'. notify n h l s = Some s' \<and> local_step h s s' \<and>
    calls s' = calls s @ [(h, l, data_of s h)] \<and>
    (listeners_of s' h = listeners_of s h \<or>
     listeners_of s' h = filter (\<lambda>x. x \<noteq> l) (listeners_of s h)) \<and>
    (\<exists>es. console s' = console s @ es)"
proof -
  let ?s0 = "s\<lparr>calls := calls s @ [(h, l, data_of s h)]\<rparr>"
  from invoke_local [OF assms, of n "data_of s h" ?s0]
  obtain r s1 where inv: "invoke n (closures s l) (data_of s h) ?s0 = Some (r, s1)"
    and fr: "handles s1 = handles s" "closures s1 = closures s"
      "next_closure s1 = next_closure s" "next_handle s1 = next_handle s"
      "next_promise s1 = next_promise s" "calls s1 = calls s @ [(h, l, data_of s h)]"
      "console s1 = console s"
    by auto
  have d: "data_of s1 x = data_of s x" "listeners_of s1 x = listeners_of s x" for x
    using fr(1) by (simp_all add: data_of_def listeners_of_def)
  show ?thesis
    using inv fr
    by (cases r) (auto simp: notify.simps local_step_def d)
qed

lemma notify_each_local:
  assumes "\<forall>l \<in> set ls. \<not> is_recompute (closures s l)"
  shows "\<exists>s'. notify_each n h ls s = Some s' \<and> local_step h s s' \<and>
    calls s' = calls s @ map (\<lambda>l. (h, l, data_of s h)) ls"
  using assms
proof (induction ls arbitrary: s)
  case Nil
  then show ?case by (simp add: local_step_refl)
next
  case (Cons l ls)
  from Cons.prems notify_local [of s l n h] obtain s1 where 1: "notify n h l s = Some s1"
    and 2: "local_step h s s1" and 3: "calls s1 = calls s @ [(h, l, data_of s h)]"
    by auto
  from 2 Cons.prems have "\<forall>l \<in> set ls. \<not> is_recompute (closures s1 l)"
    by (simp add: local_step_def)
  from Cons.IH [OF this] obtain s' where 4: "notify_each n h ls s1 = Some s'"
    and 5: "local_step h s1 s'" and 6: "calls s' = calls s1 @ map (\<lambda>l. (h, l, data_of s1 h)) ls"
    by auto
  from 2 have "data_of s1 h = data_of s h" by (simp add: local_step_def)
  with 1 3 4 6 local_step_trans [OF 2 5] show ?case by simp
qed


lemma notify_thrower:
  assumes "closures s l = Listener f" "f (store s) (data_of s h) = (Thrown e, hp)"
  shows "notify n h l s =
    Some (s\<lparr>calls := calls s @ [(h, l, data_of s h)], store := hp, console := console s @ [e]\<rparr>)"
  using assms by (simp add: notify.simps)

lemma Observable_set_local:
  assumes "safeClone n (store s) v = Some (Inr (v', hp))"
    and "\<forall>l \<in> set (listeners_of s h). \<not> is_recompute (closures s l)"
  shows "\<exists>s'. Observable_set n h v s = Some (Inr True, s') \<and>
    local_step h (put_data h v' (s\<lparr>store := hp\<rparr>)) s' \<and>
    calls s' = calls s @ map (\<lambda>l. (h, l, v')) (listeners_of s h)"
proof -
  let ?s1 = "put_data h v' (s\<lparr>store := hp\<rparr>)"
  from assms(2) have "\<forall>l \<in> set (listeners_of s h). \<not> is_recompute (closures ?s1 l)"
    by simp
  from notify_each_local [OF this, of n h] assms(1) show ?thesis
    by (auto simp: Observable_set.simps)
qed

lemma local_step_put_data:
  "local_step h (put_data h v' (s\<lparr>store := hp\<rparr>)) s' \<Longrightarrow>
   closures s' = closures s \<and> data_of s' h = v' \<and> (\<forall>x. x \<noteq> h \<longrightarrow> data_of s' x = data_of s x) \<and>
   (\<forall>x. w_alive (handles s' x) = w_alive (handles s x)) \<and>
   (\<forall>x. x \<noteq> h \<longrightarrow> listeners_of s' x = listeners_of s x) \<and>
   set (listeners_of s' h) \<subseteq> set (listeners_of s h)"
  by (auto simp: local_step_def)

lemma untouched_refl: "l \<notin> set (listeners_of s h) \<Longrightarrow> untouched h l s s"
  by (simp add: untouched_def)

lemma untouched_trans: "untouched h l s s1 \<Longrightarrow> untouched h l s1 s2 \<Longrightarrow> untouched h l s s2"
  by (auto simp: untouched_def)

lemma getValue_frame:
  "getValue n inp cb s = Some (r, s1) \<Longrightarrow>
   handles s1 = handles s \<and> calls s1 = calls s \<and> closures s1 = closures s \<and>
   console s1 = console s \<and> pending s1 = pending s \<and> promises s1 = promises s \<and>
   next_closure s1 = next_closure s \<and> next_handle s1 = next_handle s \<and>
   next_promise s1 = next_promise s"
  by (auto simp: getValue_def alloc_def split: option.splits sum.splits prod.splits)

lemma handles_eq_cells:
  "handles s1 = handles s \<Longrightarrow> listeners_of s1 x = listeners_of s x \<and> data_of s1 x = data_of s x"
  by (simp add: data_of_def listeners_of_def)

lemma untouched_all:
  "l \<notin> set (listeners_of s h) \<Longrightarrow> Observable_set n x v s = Some (r, s') \<Longrightarrow> untouched h l s s'"
  "l \<notin> set (listeners_of s h) \<Longrightarrow> (x = h \<longrightarrow> l \<notin> set ls) \<Longrightarrow>
     notify_each n x ls s = Some s' \<Longrightarrow> untouched h l s s'"
  "l \<notin> set (listeners_of s h) \<Longrightarrow> (x = h \<longrightarrow> y \<noteq> l) \<Longrightarrow>
     notify n x y s = Some s' \<Longrightarrow> untouched h l s s'"
  "l \<notin> set (listeners_of s h) \<Longrightarrow> invoke n c d s = Some (q, s') \<Longrightarrow> untouched h l s s'"
  "l \<notin> set (listeners_of s h) \<Longrightarrow> setter n x v s = Some (r, s') \<Longrightarrow> untouched h l s s'"
proof (induction n x v s and n x ls s and n x y s and n c d s and n x v s
    arbitrary: r s' and s' and s' and q s' and r s'
    rule: Observable_set_notify_each_notify_invoke_setter.induct)
  case (1 n x v s)
  from "1.prems"(2) show ?case
  proof (cases "safeClone n (store s) v")
    case None
    with "1.prems"(2) show ?thesis by (simp add: Observable_set.simps)
  next
    case (Some res)
    show ?thesis
    proof (cases res)
      case (Inl e)
      with Some "1.prems" show ?thesis by (simp add: Observable_set.simps untouched_refl)
    next
      case (Inr b)
      obtain v' hp where b: "b = (v', hp)" by (cases b)
      let ?s1 = "put_data x v' (s\<lparr>store := hp\<rparr>)"
      from "1.prems"(2) Some Inr b obtain s2 where ne: "notify_each n x (listeners_of s x) ?s1 = Some s2"
        and s': "s' = s2"
        by (auto simp: Observable_set.simps split: option.splits)
      have "untouched h l ?s1 s2"
        by (rule "1.IH" [OF Some Inr b [symmetric] _ _ ne]) (use "1.prems"(1) in auto)
      then show ?thesis by (simp add: untouched_def s')
    qed
  qed
next
  case (2 n x s)
  then show ?case by (simp add: untouched_refl)
next
  case (3 n x y ls s)
  from "3.prems"(3) obtain s1 where n1: "notify n x y s = Some s1"
    and n2: "notify_each n x ls s1 = Some s'"
    by (auto split: option.splits)
  from "3.prems"(1,2) n1 have u1: "untouched h l s s1" by (intro "3.IH"(1)) auto
  then have "l \<notin> set (listeners_of s1 h)" by (simp add: untouched_def)
  with "3.prems"(2) n2 have "untouched h l s1 s'" by (intro "3.IH"(2) [OF n1]) auto
  with u1 show ?case by (rule untouched_trans)
next
  case (4 n x y s)
  let ?s0 = "s\<lparr>calls := calls s @ [(x, y, data_of s x)]\<rparr>"
  from "4.prems"(3) obtain q s1 where inv: "invoke n (closures s y) (data_of s x) ?s0 = Some (q, s1)"
    by (auto simp: notify.simps split: option.splits)
  from "4.prems"(1) have "l \<notin> set (listeners_of ?s0 h)" by simp
  from "4.IH" [OF this inv] have u: "untouched h l ?s0 s1" .
  with "4.prems"(2) have u1: "untouched h l s s1" by (auto simp: untouched_def)
  from "4.prems"(3) inv u1 show ?case
    by (cases q) (auto simp: notify.simps untouched_def split: if_splits)
next
  case (5 n f d s)
  then show ?case by (auto simp: untouched_def listeners_of_def split: prod.splits)
next
  case (6 n p cb d s)
  then show ?case
    by (auto simp: untouched_def split: prod.splits sum.splits if_splits)
next
  case (7 inp cb target d s)
  then show ?case by simp
next
  case (8 n inp cb target d s)
  from "8.prems"(2) obtain res s1 where gv: "getValue n inp cb s = Some (res, s1)"
    by (auto split: option.splits)
  from getValue_frame [OF gv] have fr: "handles s1 = handles s" "calls s1 = calls s" by simp_all
  from fr(1) "8.prems"(1) have l1: "l \<notin> set (listeners_of s1 h)" by (simp add: listeners_of_def)
  show ?case
  proof (cases res)
    case (Inl e)
    with "8.prems"(2) gv l1 fr show ?thesis by (auto simp: untouched_def)
  next
    case (Inr b)
    with "8.prems"(2) gv obtain r2 where st: "setter n target b s1 = Some (r2, s')"
      by (auto split: option.splits sum.splits)
    from "8.IH" [OF gv refl Inr l1 st] fr show ?thesis by (simp add: untouched_def)
  qed
next
  case (9 n x v s)
  show ?case
  proof (cases "w_alive (handles s x)")
    case True
    with "9.prems" "9.IH" show ?thesis by (simp add: setter.simps)
  next
    case False
    with "9.prems" show ?thesis by (simp add: setter.simps untouched_refl)
  qed
qed

lemma notify_each_thrower:
  assumes "\<forall>x \<in> set ls. \<not> is_recompute (closures s x)"
    and "closures s l = Listener f" and "\<forall>hp d. \<exists>e hp'. f hp d = (Thrown e, hp')"
    and "l \<in> set (listeners_of s h)"
  shows "\<exists>s'. notify_each n h ls s = Some s' \<and> local_step h s s' \<and>
    calls s' = calls s @ map (\<lambda>x. (h, x, data_of s h)) ls \<and>
    l \<in> set (listeners_of s' h) \<and>
    (\<exists>es. console s' = console s @ es \<and> (l \<in> set ls \<longrightarrow> es \<noteq> []))"
  using assms(1,2,4)
proof (induction ls arbitrary: s)
  case Nil
  then show ?case by (simp add: local_step_refl)
next
  case (Cons x ls)
  have "\<exists>s1. notify n h x s = Some s1 \<and> local_step h s s1 \<and>
      calls s1 = calls s @ [(h, x, data_of s h)] \<and> l \<in> set (listeners_of s1 h) \<and>
      (\<exists>es. console s1 = console s @ es \<and> (x = l \<longrightarrow> es \<noteq> []))"
  proof (cases "x = l")
    case True
    from assms(3) obtain e hp where "f (store s) (data_of s h) = (Thrown e, hp)" by blast
    from notify_thrower [OF Cons.prems(2) this, of n] True Cons.prems(3) show ?thesis
      by (simp add: local_step_def)
  next
    case False
    from Cons.prems(1) notify_local [of s x n h] obtain s1 where "notify n h x s = Some s1"
      "local_step h s s1" "calls s1 = calls s @ [(h, x, data_of s h)]"
      "listeners_of s1 h = listeners_of s h \<or>
       listeners_of s1 h = filter (\<lambda>y. y \<noteq> x) (listeners_of s h)"
      "\<exists>es. console s1 = console s @ es"
      by auto
    with False Cons.prems(3) show ?thesis by auto
  qed
  then obtain s1 es1 where 1: "notify n h x s = Some s1" and 2: "local_step h s s1"
    and 3: "calls s1 = calls s @ [(h, x, data_of s h)]" and 4: "l \<in> set (listeners_of s1 h)"
    and 5: "console s1 = console s @ es1" "x = l \<longrightarrow> es1 \<noteq> []"
    by blast
  from 2 Cons.prems have "\<forall>x \<in> set ls. \<not> is_recompute (closures s1 x)" "closures s1 l = Listener f"
    by (simp_all add: local_step_def)
  from Cons.IH [OF this 4] obtain s' es where 6: "notify_each n h ls s1 = Some s'"
    and 7: "local_step h s1 s'" and 8: "calls s' = calls s1 @ map (\<lambda>x. (h, x, data_of s1 h)) ls"
    and 9: "l \<in> set (listeners_of s' h)"
    and 10: "console s' = console s1 @ es" "l \<in> set ls \<longrightarrow> es \<noteq> []"
    by blast
  from 2 have "data_of s1 h = data_of s h" by (simp add: local_step_def)
  with 1 3 5 6 8 9 10 local_step_trans [OF 2 7] show ?case by auto
qed

lemmas example_defs = init_def cell_state_def record_state_def record_cell_def
  record_cell_notified_def point_state_def point_cell_def thrower_cell_def
  throwing_listener_def stopping_listener_def set_field_a_def

lemma thrower_cell_created:
  "Whispr_create 0 (JNum 0)
     (init\<lparr>store := [Object ProtoObject (Some (CloneThrows (JStr ''boom''))) []]\<rparr>) =
   Some (Inr 0, thrower_cell)"
  by (simp add: Whispr_create_def thrower_cell_def init_def)








text \<open>
  C2, on the code. \<open>notify\<close> calls the listener with \<open>this._data\<close>, not with a clone.
  The handle is created with \<open>{a: 1}\<close> and stores its clone, the object at address 1; the
  listener \<open>(o) => { o.a = 2 }\<close>, subscribed with \<open>immediate = true\<close>, receives the
  reference to that same object and writes into it; the next read returns a clone in which
  \<open>a\<close> is 2.
\<close>

theorem notify_passes_stored_object:
  "Whispr_create 1 (JRef 0) record_state = Some (Inr 0, record_cell) \<and>
   data_of record_cell 0 = JRef 1 \<and>
   Whispr_subscribe 1 0 0 True record_cell = Some record_cell_notified \<and>
   calls record_cell_notified = [(0, 0, JRef 1)] \<and>
   data_of record_cell_notified 0 = JRef 1 \<and>
   lookup (store record_cell_notified) 1 = Some (Object ProtoObject None [(''a'', JNum 2)]) \<and>
   Whispr_value 1 0 record_cell_notified =
     Some (Inr (JRef 2),
       record_cell_notified\<lparr>store := store record_cell_notified @
         [Object ProtoObject None [(''a'', JNum 2)]]\<rparr>)"
  by (simp add: Whispr_create_def Whispr_subscribe_def Observable_subscribe_def Whispr_value_def
      Observable_value_def notify.simps example_defs lookup_def alloc_def cell_defs)

text \<open>
  C3, on the code. \<open>new Point(1)\<close> is an instance of a class, has no \<open>clone\<close> and no
  field \<open>skipSafeClone\<close>. \<open>safeClone\<close> returns the same reference; creating a handle
  with it and reading the handle leave the console empty: no diagnostic is emitted.
\<close>

theorem class_instance_shared_silently:
  "isLikelyClassInstance (Object (ProtoCustom (CtorFunction ''Point'')) None [(''x'', JNum 1)]) \<and>
   safeClone 1 (store point_state) (JRef 0) = Some (Inr (JRef 0, store point_state)) \<and>
   Whispr_create 1 (JRef 0) point_state = Some (Inr 0, point_cell) \<and>
   Whispr_value 1 0 point_cell = Some (Inr (JRef 0), point_cell) \<and>
   console point_cell = []"
  by (simp add: Whispr_create_def Whispr_value_def Observable_value_def example_defs lookup_def
      cell_defs)


lemma plain_clonable: "plain n h v \<Longrightarrow> clonable n h v"
proof (induction n arbitrary: v)
  case 0
  then show ?case by (cases v) auto
next
  case (Suc n)
  show ?case
  proof (cases v)
    case (JRef a)
    with Suc.prems show ?thesis
      by (auto simp: list_all_iff split: option.splits obj.splits clone_op.splits intro: Suc.IH)
  qed auto
qed

lemma quiet_not_recompute: "quiet c \<Longrightarrow> \<not> is_recompute c"
  by (cases c) auto

lemma invoke_quiet:
  assumes "quiet c"
  shows "\<exists>r s'. invoke n c d s = Some (r, s') \<and> store s' = store s"
proof (cases c)
  case (Listener f)
  with assms have "snd (f (store s) d) = store s" by simp
  with Listener show ?thesis by (cases "f (store s) d") simp
next
  case (Waiter p cb)
  with assms have "snd (cb (store s) d) = store s" by simp
  with Waiter show ?thesis by (cases "cb (store s) d") (auto split: sum.splits)
qed (use assms in simp)

lemma notify_quiet:
  assumes "quiet (closures s l)"
  shows "\<exists>s'. notify n h l s = Some s' \<and> local_step h s s' \<and> store s' = store s"
proof -
  let ?s0 = "s\<lparr>calls := calls s @ [(h, l, data_of s h)]\<rparr>"
  from invoke_quiet [OF assms, of n "data_of s h" ?s0]
  obtain r s1 where inv: "invoke n (closures s l) (data_of s h) ?s0 = Some (r, s1)"
    and st: "store s1 = store s"
    by auto
  from notify_local [OF quiet_not_recompute [OF assms], of n h]
  obtain s' where n: "notify n h l s = Some s'" and ls: "local_step h s s'" by blast
  from n inv st have "store s' = store s"
    by (cases r) (auto simp: notify.simps split: if_splits)
  with n ls show ?thesis by simp
qed

lemma notify_each_quiet:
  assumes "\<forall>l \<in> set ls. quiet (closures s l)"
  shows "\<exists>s'. notify_each n h ls s = Some s' \<and> local_step h s s' \<and> store s' = store s"
  using assms
proof (induction ls arbitrary: s)
  case Nil
  then show ?case by (simp add: local_step_refl)
next
  case (Cons l ls)
  from Cons.prems notify_quiet [of s l n h] obtain s1 where 1: "notify n h l s = Some s1"
    and 2: "local_step h s s1" and 3: "store s1 = store s"
    by auto
  from 2 Cons.prems have "\<forall>l \<in> set ls. quiet (closures s1 l)"
    by (simp add: local_step_def)
  from Cons.IH [OF this] obtain s' where 4: "notify_each n h ls s1 = Some s'"
    and 5: "local_step h s1 s'" and 6: "store s' = store s1"
    by auto
  with 1 3 local_step_trans [OF 2 5] show ?case by simp
qed




lemma absent_iff: "absent r \<longleftrightarrow> r = JNull \<or> r = JUndefined"
  by (cases r) auto

lemma notify_waiter:
  assumes "closures s l = Waiter p (pure_pred q)"
  shows "notify n h l s =
    Some (if matches q (data_of s h)
          then unsubscribe h l
                 (resolve p (q (data_of s h)) (s\<lparr>calls := calls s @ [(h, l, data_of s h)]\<rparr>))
          else s\<lparr>calls := calls s @ [(h, l, data_of s h)]\<rparr>)"
proof -
  have "s\<lparr>calls := calls s @ [(h, l, data_of s h)],
          store := store s\<rparr> = s\<lparr>calls := calls s @ [(h, l, data_of s h)]\<rparr>"
    by simp
  with assms show ?thesis
    by (auto simp: notify.simps pure_pred_def matches_def absent_iff)
qed

lemma notify_other_promise:
  assumes "\<not> is_recompute (closures s x)" and "\<forall>cb. closures s x \<noteq> Waiter p cb"
    and "notify n h x s = Some s'"
  shows "promises s' p = promises s p"
proof (cases "closures s x")
  case (Listener f)
  with assms(3) show ?thesis
    by (cases "f (store s) (data_of s h)")
      (auto simp: notify.simps split: completion.splits if_splits)
next
  case (Waiter p' cb)
  with assms(2) have "p' \<noteq> p" by auto
  with Waiter assms(3) show ?thesis
    by (cases "cb (store s) (data_of s h)")
      (auto simp: notify.simps split: completion.splits if_splits sum.splits)
qed (use assms(1) in simp)

lemma notify_each_waiter:
  assumes "\<forall>x \<in> set ls. \<not> is_recompute (closures s x)"
    and "closures s l = Waiter p (pure_pred q)"
    and "\<forall>x \<in> set ls. x \<noteq> l \<longrightarrow> (\<forall>cb. closures s x \<noteq> Waiter p cb)"
  shows "\<exists>s'. notify_each n h ls s = Some s' \<and> local_step h s s' \<and>
    promises s' p =
      (if l \<in> set ls \<and> matches q (data_of s h)
       then (case promises s p of None \<Rightarrow> Some (q (data_of s h)) | Some r \<Rightarrow> Some r)
       else promises s p) \<and>
    (l \<in> set (listeners_of s' h) \<longleftrightarrow>
       l \<in> set (listeners_of s h) \<and> \<not> (l \<in> set ls \<and> matches q (data_of s h)))"
  using assms
proof (induction ls arbitrary: s)
  case Nil
  then show ?case by (simp add: local_step_refl)
next
  case (Cons x ls)
  let ?d = "data_of s h"
  from Cons.prems(1) notify_local [of s x n h] obtain s1 where n1: "notify n h x s = Some s1"
    and ls1: "local_step h s s1"
    and same: "listeners_of s1 h = listeners_of s h \<or>
       listeners_of s1 h = filter (\<lambda>y. y \<noteq> x) (listeners_of s h)"
    by auto
  have step: "promises s1 p =
      (if x = l \<and> matches q ?d
       then (case promises s p of None \<Rightarrow> Some (q ?d) | Some r \<Rightarrow> Some r)
       else promises s p) \<and>
    (l \<in> set (listeners_of s1 h) \<longleftrightarrow> l \<in> set (listeners_of s h) \<and> \<not> (x = l \<and> matches q ?d))"
  proof (cases "x = l")
    case True
    from notify_waiter [OF Cons.prems(2), of n h] n1 True show ?thesis
      by (auto split: if_splits option.splits)
  next
    case False
    with Cons.prems(1,3) n1 have "promises s1 p = promises s p"
      by (intro notify_other_promise [of s x p n h s1]) auto
    with False same show ?thesis by auto
  qed
  from ls1 have fr: "closures s1 = closures s" "data_of s1 h = data_of s h"
    by (simp_all add: local_step_def)
  from Cons.prems fr have "\<forall>x \<in> set ls. \<not> is_recompute (closures s1 x)"
    "closures s1 l = Waiter p (pure_pred q)"
    "\<forall>x \<in> set ls. x \<noteq> l \<longrightarrow> (\<forall>cb. closures s1 x \<noteq> Waiter p cb)"
    by simp_all
  from Cons.IH [OF this] obtain s' where n2: "notify_each n h ls s1 = Some s'"
    and ls2: "local_step h s1 s'"
    and pr: "promises s' p =
      (if l \<in> set ls \<and> matches q (data_of s1 h)
       then (case promises s1 p of None \<Rightarrow> Some (q (data_of s1 h)) | Some r \<Rightarrow> Some r)
       else promises s1 p)"
    and mem: "l \<in> set (listeners_of s' h) \<longleftrightarrow>
       l \<in> set (listeners_of s1 h) \<and> \<not> (l \<in> set ls \<and> matches q (data_of s1 h))"
    by blast
  from n1 n2 have "notify_each n h (x # ls) s = Some s'" by simp
  moreover from ls1 ls2 have "local_step h s s'" by (rule local_step_trans)
  moreover from pr step fr(2) have "promises s' p =
      (if l \<in> set (x # ls) \<and> matches q ?d
       then (case promises s p of None \<Rightarrow> Some (q ?d) | Some r \<Rightarrow> Some r)
       else promises s p)"
    by (auto split: option.splits)
  moreover from mem step fr(2) have "l \<in> set (listeners_of s' h) \<longleftrightarrow>
       l \<in> set (listeners_of s h) \<and> \<not> (l \<in> set (x # ls) \<and> matches q ?d)"
    by auto
  ultimately show ?case by blast
qed

lemma primitive_safeClone: "primitive v \<Longrightarrow> safeClone n hp v = Some (Inr (v, hp))"
  by (cases v) auto

lemma setter_waiting:
  assumes "waiting h l p q s" and "primitive v"
  shows "\<exists>s'. setter n h v s = Some (Inr True, s') \<and> waiting h l p q s' \<and>
    promises s' p =
      (case promises s p of
         Some r \<Rightarrow> Some r
       | None \<Rightarrow> if matches q v then Some (q v) else None)"
proof -
  let ?s0 = "put_data h v s"
  from assms(1) have w: "w_alive (handles s h)"
    and loc: "\<forall>x \<in> set (listeners_of s h). \<not> is_recompute (closures s x)"
    and cl: "closures s l = Waiter p (pure_pred q)"
    and oth: "\<forall>x \<in> set (listeners_of s h). x \<noteq> l \<longrightarrow> (\<forall>cb. closures s x \<noteq> Waiter p cb)"
    and inv: "l \<in> set (listeners_of s h) \<longleftrightarrow> promises s p = None"
    by (simp_all add: waiting_def)
  from loc cl oth have pre: "\<forall>x \<in> set (listeners_of s h). \<not> is_recompute (closures ?s0 x)"
    "closures ?s0 l = Waiter p (pure_pred q)"
    "\<forall>x \<in> set (listeners_of s h). x \<noteq> l \<longrightarrow> (\<forall>cb. closures ?s0 x \<noteq> Waiter p cb)"
    by simp_all
  have e: "promises ?s0 p = promises s p" "data_of ?s0 h = v"
    "listeners_of ?s0 h = listeners_of s h"
    by simp_all
  from notify_each_waiter [OF pre, of n h, unfolded e]
  have "\<exists>s'. notify_each n h (listeners_of s h) ?s0 = Some s' \<and> local_step h ?s0 s' \<and>
    promises s' p =
      (if l \<in> set (listeners_of s h) \<and> matches q v
       then (case promises s p of None \<Rightarrow> Some (q v) | Some r \<Rightarrow> Some r)
       else promises s p) \<and>
    (l \<in> set (listeners_of s' h) \<longleftrightarrow>
       l \<in> set (listeners_of s h) \<and> \<not> (l \<in> set (listeners_of s h) \<and> matches q v))" .
  then obtain s' where ne: "notify_each n h (listeners_of s h) ?s0 = Some s'"
    and ls: "local_step h ?s0 s'"
    and pr: "promises s' p =
      (if l \<in> set (listeners_of s h) \<and> matches q v
       then (case promises s p of None \<Rightarrow> Some (q v) | Some r \<Rightarrow> Some r)
       else promises s p)"
    and mem: "l \<in> set (listeners_of s' h) \<longleftrightarrow>
       l \<in> set (listeners_of s h) \<and> \<not> (l \<in> set (listeners_of s h) \<and> matches q v)"
    by blast
  from ne w primitive_safeClone [OF assms(2), of n "store s"]
  have st: "setter n h v s = Some (Inr True, s')"
    by (simp add: setter.simps Observable_set.simps)
  from ls have ls': "local_step h (put_data h v (s\<lparr>store := store s\<rparr>)) s'" by simp
  from local_step_put_data [OF ls'] have fr: "closures s' = closures s"
    "\<forall>x. w_alive (handles s' x) = w_alive (handles s x)"
    "set (listeners_of s' h) \<subseteq> set (listeners_of s h)"
    by simp_all
  from pr inv have pr': "promises s' p =
      (case promises s p of Some r \<Rightarrow> Some r | None \<Rightarrow> if matches q v then Some (q v) else None)"
    by (auto split: option.splits)
  from mem inv pr' have "l \<in> set (listeners_of s' h) \<longleftrightarrow> promises s' p = None"
    by (auto split: option.splits)
  with fr w loc cl oth have "waiting h l p q s'"
    by (auto simp: waiting_def)
  with st pr' show ?thesis by blast
qed

lemma write_all_waiting:
  assumes "waiting h l p q s" and "list_all primitive vs"
  shows "\<exists>s'. write_all n h vs s = Some s' \<and> waiting h l p q s' \<and>
    promises s' p =
      (case promises s p of
         Some r \<Rightarrow> Some r
       | None \<Rightarrow> map_option q (find (matches q) vs))"
  using assms
proof (induction vs arbitrary: s)
  case Nil
  then show ?case by (simp split: option.splits)
next
  case (Cons v vs)
  from Cons.prems have "primitive v" "list_all primitive vs" by simp_all
  from setter_waiting [OF Cons.prems(1) this(1), of n]
  obtain s1 where 1: "setter n h v s = Some (Inr True, s1)" and 2: "waiting h l p q s1"
    and 3: "promises s1 p =
      (case promises s p of Some r \<Rightarrow> Some r
       | None \<Rightarrow> if matches q v then Some (q v) else None)"
    by blast
  from Cons.IH [OF 2 \<open>list_all primitive vs\<close>]
  obtain s' where 4: "write_all n h vs s1 = Some s'" and 5: "waiting h l p q s'"
    and 6: "promises s' p =
      (case promises s1 p of Some r \<Rightarrow> Some r | None \<Rightarrow> map_option q (find (matches q) vs))"
    by blast
  from 1 4 have "write_all n h (v # vs) s = Some s'" by simp
  moreover from 3 6 have "promises s' p =
      (case promises s p of Some r \<Rightarrow> Some r
       | None \<Rightarrow> map_option q (find (matches q) (v # vs)))"
    by (auto split: option.splits)
  ultimately show ?case using 5 by blast
qed

lemma Whispr_wait_waiting:
  assumes "w_alive (handles s h)"
    and "\<forall>x \<in> set (listeners_of s h). \<not> is_recompute (closures s x)"
    and "\<forall>x \<in> set (listeners_of s h). \<forall>cb. closures s x \<noteq> Waiter (next_promise s) cb"
    and "next_closure s \<notin> set (listeners_of s h)"
  shows "\<exists>s1. Whispr_wait n h (pure_pred q) s = Some (next_promise s, s1) \<and>
    waiting h (next_closure s) (next_promise s) q s1 \<and>
    promises s1 (next_promise s) =
      (if matches q (data_of s h) then Some (q (data_of s h)) else None) \<and>
    calls s1 = calls s @ [(h, next_closure s, data_of s h)]"
proof -
  let ?p = "next_promise s" and ?l = "next_closure s"
  let ?s0 = "s\<lparr>promises := (promises s)(?p := None), next_promise := Suc ?p,
               closures := (closures s)(?l := Waiter ?p (pure_pred q)),
               next_closure := Suc ?l\<rparr>"
  let ?s1 = "put_listeners h (listeners_of ?s0 h @ [?l]) ?s0"
  have cl: "closures ?s1 ?l = Waiter ?p (pure_pred q)" by simp
  have d: "data_of ?s1 h = data_of s h" by simp
  let ?s2 = "if matches q (data_of s h)
    then unsubscribe h ?l
           (resolve ?p (q (data_of s h)) (?s1\<lparr>calls := calls ?s1 @ [(h, ?l, data_of s h)]\<rparr>))
    else ?s1\<lparr>calls := calls ?s1 @ [(h, ?l, data_of s h)]\<rparr>"
  from notify_waiter [OF cl, of n h] have n: "notify n h ?l ?s1 = Some ?s2"
    by (simp only: d)
  then have w: "Whispr_wait n h (pure_pred q) s = Some (?p, ?s2)"
    by (simp add: Whispr_wait_def Whispr_subscribe_def Observable_subscribe_def)
  have alive: "w_alive (handles ?s2 h)" using assms(1)
    by (simp add: put_listeners_def)
  have cls: "closures ?s2 = (closures s)(?l := Waiter ?p (pure_pred q))" by simp
  have lst: "listeners_of ?s2 h =
      (if matches q (data_of s h) then listeners_of s h else listeners_of s h @ [?l])"
    using assms(4) by (auto simp: filter_id_conv)
  have pr: "promises ?s2 ?p = (if matches q (data_of s h) then Some (q (data_of s h)) else None)"
    by simp
  have "waiting h ?l ?p q ?s2"
    unfolding waiting_def
  proof (intro conjI)
    show "w_alive (handles ?s2 h)" by (rule alive)
    show "\<forall>x \<in> set (listeners_of ?s2 h). \<not> is_recompute (closures ?s2 x)"
      using assms(2) by (auto simp: lst cls)
    show "closures ?s2 ?l = Waiter ?p (pure_pred q)" by (simp add: cls)
    show "\<forall>x \<in> set (listeners_of ?s2 h). x \<noteq> ?l \<longrightarrow> (\<forall>cb. closures ?s2 x \<noteq> Waiter ?p cb)"
      using assms(3) by (auto simp: lst cls)
    show "?l \<in> set (listeners_of ?s2 h) \<longleftrightarrow> promises ?s2 ?p = None"
      using assms(4) by (auto simp: lst pr)
  qed
  moreover have "calls ?s2 = calls s @ [(h, ?l, data_of s h)]" by simp
  ultimately show ?thesis using w pr by blast
qed




subsection \<open>Derived handles\<close>

lemma frame_refl: "frame D L s s"
  by (simp add: frame_def)

lemma frame_trans: "frame D L s s1 \<Longrightarrow> frame D L s1 s2 \<Longrightarrow> frame D L s s2"
  unfolding frame_def by (intro conjI allI impI; (elim conjE)?) (simp, simp, simp, simp, simp, simp, blast)

lemma frame_mono: "frame D L s s' \<Longrightarrow> D \<subseteq> D' \<Longrightarrow> L \<subseteq> L' \<Longrightarrow> frame D' L' s s'"
  by (auto simp: frame_def)

lemma local_step_frame: "local_step h s s' \<Longrightarrow> frame {} {h} s s'"
  by (auto simp: local_step_def frame_def)

lemma readInputs_primitive:
  "\<forall>src \<in> snd ` set inp. primitive (obs_data (w_data (hs src))) \<Longrightarrow>
   readInputs n hs hp inp =
     Some (Inr (map (\<lambda>(key, src). (key, obs_data (w_data (hs src)))) inp, hp))"
  by (induction inp) (auto simp: primitive_safeClone)

lemma getValue_primitive:
  assumes "\<forall>src \<in> snd ` set inp. primitive (data_of s src)"
  shows "getValue n inp (pure_fn g) s =
    Some (Inr (g (entries_of s inp)),
      s\<lparr>store := store s @ [Object ProtoObject None (entries_of s inp)]\<rparr>)"
proof -
  from assms have "\<forall>src \<in> snd ` set inp. primitive (obs_data (w_data (handles s src)))"
    by (simp add: data_of_def)
  from readInputs_primitive [OF this, of n "store s"] show ?thesis
    by (simp add: getValue_def alloc_def pure_fn_def lookup_def entries_of_def data_of_def)
qed

lemma derived_target_ready: "derived inp g d s \<Longrightarrow> target_ready inp d s"
  by (simp add: derived_def target_ready_def)

lemma notify_recompute:
  assumes "target_ready inp d s" and "closures s x = Recompute inp (pure_fn g) d"
    and "\<forall>fs. primitive (g fs)"
  shows "\<exists>s'. notify (Suc n) a x s = Some s' \<and> frame {d} {d} s s' \<and>
    data_of s' d = g (entries_of s inp)"
proof -
  from assms(1) have alive: "w_alive (handles s d)"
    and loc: "\<forall>y \<in> set (listeners_of s d). \<not> is_recompute (closures s y)"
    and prim: "\<forall>src \<in> snd ` set inp. primitive (data_of s src)"
    by (simp_all add: target_ready_def)
  let ?fs = "entries_of s inp"
  let ?s0 = "s\<lparr>calls := calls s @ [(a, x, data_of s a)]\<rparr>"
  let ?s1 = "?s0\<lparr>store := store s @ [Object ProtoObject None ?fs]\<rparr>"
  have fs0: "entries_of ?s0 inp = ?fs" by (simp add: entries_of_def)
  from prim have "\<forall>src \<in> snd ` set inp. primitive (data_of ?s0 src)" by simp
  from getValue_primitive [OF this, of n g]
  have gv: "getValue n inp (pure_fn g) ?s0 = Some (Inr (g ?fs), ?s1)"
    by (simp add: fs0)
  from assms(3) have cl: "safeClone n (store ?s1) (g ?fs) = Some (Inr (g ?fs, store ?s1))"
    by (simp add: primitive_safeClone)
  from loc have "\<forall>y \<in> set (listeners_of ?s1 d). \<not> is_recompute (closures ?s1 y)" by simp
  from Observable_set_local [OF cl this]
  obtain s' where os: "Observable_set n d (g ?fs) ?s1 = Some (Inr True, s')"
    and ls: "local_step d (put_data d (g ?fs) (?s1\<lparr>store := store ?s1\<rparr>)) s'"
    by blast
  from alive os have st: "setter n d (g ?fs) ?s1 = Some (Inr True, s')"
    by (simp add: setter.simps)
  from gv st assms(2) have "notify (Suc n) a x s = Some s'"
    by (simp add: notify.simps)
  moreover from local_step_put_data [OF ls] ls have "frame {d} {d} s s'"
    by (auto simp: frame_def local_step_def)
  moreover from local_step_put_data [OF ls] have "data_of s' d = g ?fs" by simp
  ultimately show ?thesis by blast
qed

lemma entries_of_frame:
  assumes "frame {d} L s s'" "d \<notin> snd ` set inp"
  shows "entries_of s' inp = entries_of s inp"
proof -
  have "data_of s' src = data_of s src" if "(key, src) \<in> set inp" for key src
  proof -
    from that assms(2) have "src \<noteq> d" by force
    with assms(1) show ?thesis by (simp add: frame_def)
  qed
  then show ?thesis by (auto simp: entries_of_def)
qed

lemma derived_frame:
  assumes "derived inp g d s" and "frame {d} L s s'"
    and "\<forall>src \<in> snd ` set inp. \<forall>x \<in> set (listeners_of s src).
      is_recompute (closures s x) \<longrightarrow> x \<in> set (listeners_of s' src)"
  shows "derived inp g d s'"
  unfolding derived_def
proof (intro conjI ballI)
  from assms(1) have d: "d \<notin> snd ` set inp" by (simp add: derived_def)
  from assms(2) have cl: "closures s' = closures s"
    and sub: "\<And>x. set (listeners_of s' x) \<subseteq> set (listeners_of s x)"
    by (simp_all add: frame_def)
  show "w_alive (handles s' d)" using assms(1,2) by (simp add: derived_def frame_def)
  show "d \<notin> snd ` set inp" by (rule d)
  show "\<not> is_recompute (closures s' x) \<or> closures s' x = Recompute inp (pure_fn g) d"
    if "src \<in> snd ` set inp" "x \<in> set (listeners_of s' src)" for src x
    using that assms(1) sub [of src] by (auto simp: derived_def cl)
  show "\<exists>x \<in> set (listeners_of s' src). closures s' x = Recompute inp (pure_fn g) d"
    if "src \<in> snd ` set inp" for src
  proof -
    from assms(1) that obtain x where x: "x \<in> set (listeners_of s src)"
      "closures s x = Recompute inp (pure_fn g) d"
      unfolding derived_def by blast
    from assms(3) that have "\<forall>y \<in> set (listeners_of s src).
        is_recompute (closures s y) \<longrightarrow> y \<in> set (listeners_of s' src)"
      by blast
    with x have "x \<in> set (listeners_of s' src)" by simp
    with x(2) show ?thesis by (auto simp: cl)
  qed
  show "\<not> is_recompute (closures s' x)" if "x \<in> set (listeners_of s' d)" for x
    using that assms(1) sub [of d] by (auto simp: derived_def cl)
  show "primitive (data_of s' src)" if "src \<in> snd ` set inp" for src
  proof -
    from that d have "src \<noteq> d" by auto
    moreover from assms(1) that have "primitive (data_of s src)"
      unfolding derived_def by blast
    ultimately show ?thesis using assms(2) by (simp add: frame_def)
  qed
qed

lemma notify_each_derived:
  assumes "derived inp g d s" and "a \<in> snd ` set inp"
    and "\<forall>x \<in> set ls. \<not> is_recompute (closures s x) \<or> closures s x = Recompute inp (pure_fn g) d"
    and "\<forall>fs. primitive (g fs)"
  shows "\<exists>s'. notify_each (Suc n) a ls s = Some s' \<and> frame {d} {a, d} s s' \<and>
    (\<forall>x \<in> set (listeners_of s a). is_recompute (closures s x) \<longrightarrow> x \<in> set (listeners_of s' a)) \<and>
    data_of s' d =
      (if \<exists>x \<in> set ls. is_recompute (closures s x) then g (entries_of s inp) else data_of s d)"
  using assms(1,3)
proof (induction ls arbitrary: s)
  case Nil
  then show ?case by (simp add: frame_refl)
next
  case (Cons x ls)
  from Cons.prems(1) assms(2) have ad: "a \<noteq> d" and dn: "d \<notin> snd ` set inp"
    by (auto simp: derived_def)
  have "\<exists>s1. notify (Suc n) a x s = Some s1 \<and> frame {d} {a, d} s s1 \<and>
      (\<forall>y \<in> set (listeners_of s a). is_recompute (closures s y) \<longrightarrow> y \<in> set (listeners_of s1 a)) \<and>
      data_of s1 d = (if is_recompute (closures s x) then g (entries_of s inp) else data_of s d)"
  proof (cases "is_recompute (closures s x)")
    case True
    with Cons.prems(2) have cx: "closures s x = Recompute inp (pure_fn g) d" by simp
    from notify_recompute [OF derived_target_ready [OF Cons.prems(1)] cx assms(4), of n a]
    obtain s1 where 1: "notify (Suc n) a x s = Some s1" and 2: "frame {d} {d} s s1"
      and 3: "data_of s1 d = g (entries_of s inp)"
      by blast
    from 2 ad have "listeners_of s1 a = listeners_of s a" by (simp add: frame_def)
    moreover from 2 have "frame {d} {a, d} s s1" by (rule frame_mono) auto
    ultimately show ?thesis using 1 3 True by auto
  next
    case False
    from notify_local [OF False, of "Suc n" a]
    obtain s1 where 1: "notify (Suc n) a x s = Some s1" and 2: "local_step a s s1"
      and 3: "listeners_of s1 a = listeners_of s a \<or>
        listeners_of s1 a = filter (\<lambda>y. y \<noteq> x) (listeners_of s a)"
      by blast
    from local_step_frame [OF 2] have "frame {d} {a, d} s s1" by (rule frame_mono) auto
    moreover from 2 have "data_of s1 d = data_of s d" by (simp add: local_step_def)
    moreover from 3 False
    have "\<forall>y \<in> set (listeners_of s a). is_recompute (closures s y) \<longrightarrow> y \<in> set (listeners_of s1 a)"
      by auto
    ultimately show ?thesis using 1 False by auto
  qed
  then obtain s1 where n1: "notify (Suc n) a x s = Some s1" and f1: "frame {d} {a, d} s s1"
    and k1: "\<forall>y \<in> set (listeners_of s a). is_recompute (closures s y) \<longrightarrow> y \<in> set (listeners_of s1 a)"
    and d1: "data_of s1 d = (if is_recompute (closures s x) then g (entries_of s inp) else data_of s d)"
    by blast
  from f1 have cl: "closures s1 = closures s" by (simp add: frame_def)
  have keep: "\<forall>src \<in> snd ` set inp. \<forall>y \<in> set (listeners_of s src).
      is_recompute (closures s y) \<longrightarrow> y \<in> set (listeners_of s1 src)"
  proof (intro ballI impI)
    fix src y assume src: "src \<in> snd ` set inp" and y: "y \<in> set (listeners_of s src)"
      "is_recompute (closures s y)"
    show "y \<in> set (listeners_of s1 src)"
    proof (cases "src = a")
      case True
      with k1 y show ?thesis by simp
    next
      case False
      moreover from src dn have "src \<noteq> d" by auto
      ultimately have "listeners_of s1 src = listeners_of s src" using f1 by (simp add: frame_def)
      with y show ?thesis by simp
    qed
  qed
  from derived_frame [OF Cons.prems(1) f1 keep] have der1: "derived inp g d s1" .
  from Cons.prems(2) cl
  have "\<forall>x \<in> set ls. \<not> is_recompute (closures s1 x) \<or> closures s1 x = Recompute inp (pure_fn g) d"
    by simp
  from Cons.IH [OF der1 this]
  obtain s' where n2: "notify_each (Suc n) a ls s1 = Some s'" and f2: "frame {d} {a, d} s1 s'"
    and k2: "\<forall>y \<in> set (listeners_of s1 a). is_recompute (closures s1 y) \<longrightarrow> y \<in> set (listeners_of s' a)"
    and d2: "data_of s' d =
      (if \<exists>x \<in> set ls. is_recompute (closures s1 x) then g (entries_of s1 inp) else data_of s1 d)"
    by blast
  from entries_of_frame [OF f1 dn] have e1: "entries_of s1 inp = entries_of s inp" .
  from n1 n2 have "notify_each (Suc n) a (x # ls) s = Some s'" by simp
  moreover from f1 f2 have "frame {d} {a, d} s s'" by (rule frame_trans)
  moreover from k1 k2 cl
  have "\<forall>y \<in> set (listeners_of s a). is_recompute (closures s y) \<longrightarrow> y \<in> set (listeners_of s' a)"
    by auto
  moreover from d1 d2 e1 cl have "data_of s' d =
      (if \<exists>x \<in> set (x # ls). is_recompute (closures s x) then g (entries_of s inp) else data_of s d)"
    by auto
  ultimately show ?case by blast
qed

lemma setter_derived:
  assumes "derived inp g d s" and "a \<in> snd ` set inp" and "w_alive (handles s a)"
    and "primitive v" and "\<forall>fs. primitive (g fs)"
  shows "\<exists>s'. setter (Suc n) a v s = Some (Inr True, s') \<and> derived inp g d s' \<and>
    (\<forall>x. w_alive (handles s' x) = w_alive (handles s x)) \<and>
    data_of s' a = v \<and> (\<forall>x. x \<noteq> a \<and> x \<noteq> d \<longrightarrow> data_of s' x = data_of s x) \<and>
    data_of s' d = g (entries_of s' inp)"
proof -
  let ?s0 = "put_data a v s"
  from assms(1,2) have ad: "a \<noteq> d" and dn: "d \<notin> snd ` set inp"
    by (auto simp: derived_def)
  have f0: "frame {a} {} s ?s0" by (simp add: frame_def)
  have der0: "derived inp g d ?s0"
    using assms(1,4) by (auto simp: derived_def)
  from assms(1,2) have ls': "\<forall>x \<in> set (listeners_of s a).
      \<not> is_recompute (closures s x) \<or> closures s x = Recompute inp (pure_fn g) d"
    unfolding derived_def by blast
  then have ls: "\<forall>x \<in> set (listeners_of s a).
      \<not> is_recompute (closures ?s0 x) \<or> closures ?s0 x = Recompute inp (pure_fn g) d"
    by simp
  from assms(1,2) obtain x0 where "x0 \<in> set (listeners_of s a)"
    "closures s x0 = Recompute inp (pure_fn g) d"
    unfolding derived_def by blast
  then have ex: "\<exists>x \<in> set (listeners_of s a). is_recompute (closures ?s0 x)"
    by (intro bexI [of _ x0]) simp_all
  from notify_each_derived [OF der0 assms(2) ls assms(5), of n]
  obtain s' where ne: "notify_each (Suc n) a (listeners_of s a) ?s0 = Some s'"
    and fr: "frame {d} {a, d} ?s0 s'"
    and keep: "\<forall>x \<in> set (listeners_of ?s0 a). is_recompute (closures ?s0 x) \<longrightarrow>
      x \<in> set (listeners_of s' a)"
    and dd: "data_of s' d = (if \<exists>x \<in> set (listeners_of s a). is_recompute (closures ?s0 x)
      then g (entries_of ?s0 inp) else data_of ?s0 d)"
    by blast
  from ne assms(3) primitive_safeClone [OF assms(4), of "Suc n" "store s"]
  have st: "setter (Suc n) a v s = Some (Inr True, s')"
    by (simp add: setter.simps Observable_set.simps)
  have keep': "\<forall>src \<in> snd ` set inp. \<forall>y \<in> set (listeners_of ?s0 src).
      is_recompute (closures ?s0 y) \<longrightarrow> y \<in> set (listeners_of s' src)"
  proof (intro ballI impI)
    fix src y assume src: "src \<in> snd ` set inp" and y: "y \<in> set (listeners_of ?s0 src)"
      "is_recompute (closures ?s0 y)"
    show "y \<in> set (listeners_of s' src)"
    proof (cases "src = a")
      case True
      with keep y show ?thesis by simp
    next
      case False
      moreover from src dn have "src \<noteq> d" by auto
      ultimately have "listeners_of s' src = listeners_of ?s0 src"
        using fr by (simp add: frame_def)
      with y show ?thesis by simp
    qed
  qed
  from derived_frame [OF der0 fr keep'] have der: "derived inp g d s'" .
  from entries_of_frame [OF fr dn] have e: "entries_of s' inp = entries_of ?s0 inp" .
  from dd ex e have dd': "data_of s' d = g (entries_of s' inp)" by simp
  from fr ad have "data_of s' a = v" by (simp add: frame_def)
  moreover from fr have "\<forall>x. x \<noteq> a \<and> x \<noteq> d \<longrightarrow> data_of s' x = data_of s x"
    by (simp add: frame_def)
  moreover from fr have "\<forall>x. w_alive (handles s' x) = w_alive (handles s x)"
    by (simp add: frame_def)
  ultimately show ?thesis using st der dd' by blast
qed

lemma entries_of_cong:
  assumes "\<forall>src \<in> snd ` set inp. data_of s' src = data_of s src"
  shows "entries_of s' inp = entries_of s inp"
proof -
  have "data_of s' src = data_of s src" if "(key, src) \<in> set inp" for key src
    using that assms by force
  then show ?thesis by (auto simp: entries_of_def)
qed

lemma subscribe_source:
  assumes "subscribing inp g d s" and "src \<in> snd ` set inp" and "\<forall>fs. primitive (g fs)"
  shows "\<exists>s'. Whispr_subscribe (Suc n) src (next_closure s) True
        (s\<lparr>closures := (closures s)(next_closure s := Recompute inp (pure_fn g) d),
           next_closure := Suc (next_closure s)\<rparr>) = Some s' \<and>
      subscribing inp g d s' \<and>
      closures s' = (closures s)(next_closure s := Recompute inp (pure_fn g) d) \<and>
      next_closure s' = Suc (next_closure s) \<and>
      next_handle s' = next_handle s \<and>
      (\<forall>x. w_alive (handles s' x) = w_alive (handles s x)) \<and>
      (\<forall>x. x \<noteq> d \<longrightarrow> data_of s' x = data_of s x) \<and>
      data_of s' d = g (entries_of s inp) \<and>
      listeners_of s' src = listeners_of s src @ [next_closure s] \<and>
      (\<forall>x. x \<noteq> src \<longrightarrow> listeners_of s' x = listeners_of s x)"
proof -
  let ?l = "next_closure s"
  let ?R = "Recompute inp (pure_fn g) d"
  let ?sa = "s\<lparr>closures := (closures s)(?l := ?R), next_closure := Suc ?l\<rparr>"
  let ?sb = "put_listeners src (listeners_of ?sa src @ [?l]) ?sa"
  from assms(1) have tr: "target_ready inp d s" and dl: "listeners_of s d = []"
    and old: "\<And>a x. a \<in> snd ` set inp \<Longrightarrow> x \<in> set (listeners_of s a) \<Longrightarrow>
      x < ?l \<and> (\<not> is_recompute (closures s x) \<or> closures s x = ?R)"
    unfolding subscribing_def by blast+
  from tr assms(2) have sd: "src \<noteq> d" and dn: "d \<notin> snd ` set inp"
    by (auto simp: target_ready_def)
  have lb: "listeners_of ?sb x = (if x = src then listeners_of s src @ [?l] else listeners_of s x)" for x
    by simp
  have db: "data_of ?sb x = data_of s x" for x by simp
  from tr sd dl have trb: "target_ready inp d ?sb"
    unfolding target_ready_def lb db by simp
  have cb: "closures ?sb ?l = ?R" by simp
  from notify_recompute [OF trb cb assms(3), of n src]
  obtain s' where n: "notify (Suc n) src ?l ?sb = Some s'" and fr: "frame {d} {d} ?sb s'"
    and dd: "data_of s' d = g (entries_of ?sb inp)"
    by blast
  have eb: "entries_of ?sb inp = entries_of s inp" by (simp add: entries_of_def)
  from n have 1: "Whispr_subscribe (Suc n) src ?l True ?sa = Some s'"
    by (simp add: Whispr_subscribe_def Observable_subscribe_def)
  from fr have cl: "closures s' = (closures s)(?l := ?R)" and nc: "next_closure s' = Suc ?l"
    and nh: "next_handle s' = next_handle s"
    and al: "\<forall>x. w_alive (handles s' x) = w_alive (handles s x)"
    and da: "\<forall>x. x \<noteq> d \<longrightarrow> data_of s' x = data_of s x"
    and li: "\<And>x. x \<noteq> d \<Longrightarrow> listeners_of s' x = listeners_of ?sb x"
    and sub: "set (listeners_of s' d) \<subseteq> set (listeners_of ?sb d)"
    by (simp_all add: frame_def)
  from sub sd dl have dl': "listeners_of s' d = []" by simp
  from li [OF sd] have ls: "listeners_of s' src = listeners_of s src @ [?l]" by simp
  have lo: "listeners_of s' x = listeners_of s x" if "x \<noteq> src" for x
  proof (cases "x = d")
    case True
    with dl dl' show ?thesis by simp
  next
    case False
    from li [OF False] that show ?thesis by simp
  qed
  have tr': "target_ready inp d s'"
    unfolding target_ready_def
  proof (intro conjI ballI)
    from tr al show "w_alive (handles s' d)" by (simp add: target_ready_def)
    show "d \<notin> snd ` set inp" by (rule dn)
    show "\<not> is_recompute (closures s' x)" if "x \<in> set (listeners_of s' d)" for x
      using that dl' by simp
    show "primitive (data_of s' a)" if "a \<in> snd ` set inp" for a
    proof -
      from that dn have "a \<noteq> d" by auto
      with da have "data_of s' a = data_of s a" by simp
      moreover from tr that have "primitive (data_of s a)"
        unfolding target_ready_def by blast
      ultimately show ?thesis by simp
    qed
  qed
  have new: "x < next_closure s' \<and> (\<not> is_recompute (closures s' x) \<or> closures s' x = ?R)"
    if a: "a \<in> snd ` set inp" and x: "x \<in> set (listeners_of s' a)" for a x
  proof (cases "x = ?l")
    case True
    then show ?thesis by (simp add: cl nc)
  next
    case False
    have "x \<in> set (listeners_of s a)"
    proof (cases "a = src")
      case True
      with x ls False show ?thesis by simp
    next
      case False
      from lo [OF False] x show ?thesis by simp
    qed
    from old [OF a this] False show ?thesis by (simp add: cl nc)
  qed
  from tr' dl' new have "subscribing inp g d s'"
    unfolding subscribing_def by blast
  with 1 cl nc nh al da dd eb ls lo show ?thesis by simp
qed

lemma subscribe_inputs_all:
  assumes "\<forall>fs. primitive (g fs)"
  shows "subscribing inp g d s \<Longrightarrow> set srcs \<subseteq> snd ` set inp \<Longrightarrow>
    \<exists>s'. subscribe_inputs (Suc n) inp (pure_fn g) d srcs s = Some s' \<and>
      subscribing inp g d s' \<and>
      (\<forall>x < next_closure s. closures s' x = closures s x) \<and>
      next_closure s \<le> next_closure s' \<and>
      next_handle s' = next_handle s \<and>
      (\<forall>x. w_alive (handles s' x) = w_alive (handles s x)) \<and>
      (\<forall>x. x \<noteq> d \<longrightarrow> data_of s' x = data_of s x) \<and>
      (srcs \<noteq> [] \<longrightarrow> data_of s' d = g (entries_of s inp)) \<and>
      (\<forall>x. set (listeners_of s x) \<subseteq> set (listeners_of s' x)) \<and>
      (\<forall>src \<in> set srcs. \<exists>x \<in> set (listeners_of s' src).
         closures s' x = Recompute inp (pure_fn g) d)"
proof (induction srcs arbitrary: s)
  case Nil
  then show ?case by simp
next
  case (Cons src srcs)
  let ?l = "next_closure s"
  let ?R = "Recompute inp (pure_fn g) d"
  from Cons.prems(2) have src: "src \<in> snd ` set inp" and rest: "set srcs \<subseteq> snd ` set inp"
    by simp_all
  from Cons.prems(1) have dn: "d \<notin> snd ` set inp"
    by (simp add: subscribing_def target_ready_def)
  from subscribe_source [OF Cons.prems(1) src assms, of n]
  obtain s1 where 1: "Whispr_subscribe (Suc n) src ?l True
        (s\<lparr>closures := (closures s)(?l := ?R), next_closure := Suc ?l\<rparr>) = Some s1"
    and j1: "subscribing inp g d s1"
    and c1: "closures s1 = (closures s)(?l := ?R)"
    and n1: "next_closure s1 = Suc ?l"
    and h1: "next_handle s1 = next_handle s"
    and a1: "\<forall>x. w_alive (handles s1 x) = w_alive (handles s x)"
    and d1: "\<forall>x. x \<noteq> d \<longrightarrow> data_of s1 x = data_of s x"
    and g1: "data_of s1 d = g (entries_of s inp)"
    and l1: "listeners_of s1 src = listeners_of s src @ [?l]"
    and o1: "\<forall>x. x \<noteq> src \<longrightarrow> listeners_of s1 x = listeners_of s x"
    by blast
  from Cons.IH [OF j1 rest]
  obtain s' where 2: "subscribe_inputs (Suc n) inp (pure_fn g) d srcs s1 = Some s'"
    and j2: "subscribing inp g d s'"
    and c2: "\<forall>x < next_closure s1. closures s' x = closures s1 x"
    and n2: "next_closure s1 \<le> next_closure s'"
    and h2: "next_handle s' = next_handle s1"
    and a2: "\<forall>x. w_alive (handles s' x) = w_alive (handles s1 x)"
    and d2: "\<forall>x. x \<noteq> d \<longrightarrow> data_of s' x = data_of s1 x"
    and g2: "srcs \<noteq> [] \<longrightarrow> data_of s' d = g (entries_of s1 inp)"
    and l2: "\<forall>x. set (listeners_of s1 x) \<subseteq> set (listeners_of s' x)"
    and e2: "\<forall>a \<in> set srcs. \<exists>x \<in> set (listeners_of s' a). closures s' x = ?R"
    by blast
  from 1 2 have r: "subscribe_inputs (Suc n) inp (pure_fn g) d (src # srcs) s = Some s'"
    by simp
  from c1 c2 n1 have c: "\<forall>x < ?l. closures s' x = closures s x" by simp
  from n1 n2 have nn: "?l \<le> next_closure s'" by simp
  from h1 h2 have hh: "next_handle s' = next_handle s" by simp
  from a1 a2 have aa: "\<forall>x. w_alive (handles s' x) = w_alive (handles s x)" by simp
  from d1 d2 have dd: "\<forall>x. x \<noteq> d \<longrightarrow> data_of s' x = data_of s x" by simp
  have "\<forall>a \<in> snd ` set inp. data_of s1 a = data_of s a"
  proof
    fix a assume "a \<in> snd ` set inp"
    with dn have "a \<noteq> d" by auto
    with d1 show "data_of s1 a = data_of s a" by simp
  qed
  then have e1: "entries_of s1 inp = entries_of s inp" by (rule entries_of_cong)
  have gg: "data_of s' d = g (entries_of s inp)"
  proof (cases "srcs = []")
    case True
    with 2 have "s' = s1" by simp
    with g1 show ?thesis by simp
  next
    case False
    with g2 e1 show ?thesis by simp
  qed
  have sub1: "set (listeners_of s x) \<subseteq> set (listeners_of s1 x)" for x
    using l1 o1 by (cases "x = src") auto
  with l2 have ll: "\<forall>x. set (listeners_of s x) \<subseteq> set (listeners_of s' x)" by blast
  have ee: "\<forall>a \<in> set (src # srcs). \<exists>x \<in> set (listeners_of s' a). closures s' x = ?R"
  proof
    fix a assume a: "a \<in> set (src # srcs)"
    show "\<exists>x \<in> set (listeners_of s' a). closures s' x = ?R"
    proof (cases "a \<in> set srcs")
      case True
      with e2 show ?thesis by blast
    next
      case False
      with a have as: "a = src" by simp
      from l1 have "?l \<in> set (listeners_of s1 src)" by simp
      with l2 have "?l \<in> set (listeners_of s' src)" by blast
      moreover from c2 n1 c1 have "closures s' ?l = ?R" by simp
      ultimately show ?thesis using as by blast
    qed
  qed
  from r j2 c nn hh aa dd gg ll ee show ?case by blast
qed

lemma Whispr_from_derived:
  assumes "\<forall>src \<in> snd ` set inp. src < next_handle s \<and> primitive (data_of s src) \<and>
      (\<forall>x \<in> set (listeners_of s src). x < next_closure s \<and> \<not> is_recompute (closures s x))"
    and "\<forall>fs. primitive (g fs)"
  shows "\<exists>s'. Whispr_from (Suc n) inp (pure_fn g) s = Some (Inr (next_handle s), s') \<and>
    derived inp g (next_handle s) s' \<and>
    (\<forall>x. x \<noteq> next_handle s \<longrightarrow> w_alive (handles s' x) = w_alive (handles s x)) \<and>
    (\<forall>x. x \<noteq> next_handle s \<longrightarrow> data_of s' x = data_of s x) \<and>
    data_of s' (next_handle s) = g (entries_of s inp)"
proof -
  let ?d = "next_handle s"
  let ?fs = "entries_of s inp"
  let ?s1 = "s\<lparr>store := store s @ [Object ProtoObject None ?fs]\<rparr>"
  let ?s2 = "?s1\<lparr>store := store ?s1,
      handles := (handles ?s1)(?d := \<lparr>w_data = \<lparr>obs_data = g ?fs, obs_listeners = []\<rparr>, w_alive = True\<rparr>),
      next_handle := Suc ?d\<rparr>"
  from assms(1) have lt: "\<And>a. a \<in> snd ` set inp \<Longrightarrow> a < ?d"
    and pr: "\<And>a. a \<in> snd ` set inp \<Longrightarrow> primitive (data_of s a)"
    and ol: "\<And>a x. a \<in> snd ` set inp \<Longrightarrow> x \<in> set (listeners_of s a) \<Longrightarrow>
      x < next_closure s \<and> \<not> is_recompute (closures s x)"
    by blast+
  from pr have "\<forall>src \<in> snd ` set inp. primitive (data_of s src)" by blast
  from getValue_primitive [OF this, of "Suc n" g]
  have gv: "getValue (Suc n) inp (pure_fn g) s = Some (Inr (g ?fs), ?s1)" .
  from assms(2) have "primitive (g ?fs)" by simp
  from primitive_safeClone [OF this, of "Suc n" "store ?s1"]
  have cr: "Whispr_create (Suc n) (g ?fs) ?s1 = Some (Inr ?d, ?s2)"
    by (simp add: Whispr_create_def)
  have d2: "data_of ?s2 x = (if x = ?d then g ?fs else data_of s x)" for x
    by (simp add: data_of_def)
  have l2: "listeners_of ?s2 x = (if x = ?d then [] else listeners_of s x)" for x
    by (simp add: listeners_of_def)
  have a2: "w_alive (handles ?s2 x) = (if x = ?d then True else w_alive (handles s x))" for x
    by simp
  have dn: "?d \<notin> snd ` set inp" using lt by blast
  have tr: "target_ready inp ?d ?s2"
    unfolding target_ready_def
  proof (intro conjI ballI)
    show "w_alive (handles ?s2 ?d)" by simp
    show "?d \<notin> snd ` set inp" by (rule dn)
    show "\<not> is_recompute (closures ?s2 x)" if "x \<in> set (listeners_of ?s2 ?d)" for x
      using that unfolding l2 by simp
    show "primitive (data_of ?s2 a)" if "a \<in> snd ` set inp" for a
      using pr [OF that] lt [OF that] unfolding d2 by simp
  qed
  have "x < next_closure ?s2 \<and>
      (\<not> is_recompute (closures ?s2 x) \<or> closures ?s2 x = Recompute inp (pure_fn g) ?d)"
    if "a \<in> snd ` set inp" "x \<in> set (listeners_of ?s2 a)" for a x
  proof -
    from lt [OF that(1)] that(2) have "x \<in> set (listeners_of s a)" unfolding l2 by simp
    from ol [OF that(1) this] show ?thesis by simp
  qed
  with tr have j: "subscribing inp g ?d ?s2"
    unfolding subscribing_def l2 by simp
  have "set (map snd inp) \<subseteq> snd ` set inp" by simp
  from subscribe_inputs_all [OF assms(2) j this, of n]
  obtain s' where si: "subscribe_inputs (Suc n) inp (pure_fn g) ?d (map snd inp) ?s2 = Some s'"
    and j': "subscribing inp g ?d s'"
    and al: "\<forall>x. w_alive (handles s' x) = w_alive (handles ?s2 x)"
    and da: "\<forall>x. x \<noteq> ?d \<longrightarrow> data_of s' x = data_of ?s2 x"
    and dg: "map snd inp \<noteq> [] \<longrightarrow> data_of s' ?d = g (entries_of ?s2 inp)"
    and ex: "\<forall>src \<in> set (map snd inp). \<exists>x \<in> set (listeners_of s' src).
         closures s' x = Recompute inp (pure_fn g) ?d"
    by blast
  from gv cr si have r: "Whispr_from (Suc n) inp (pure_fn g) s = Some (Inr ?d, s')"
    by (simp add: Whispr_from_def)
  have "\<forall>a \<in> snd ` set inp. data_of ?s2 a = data_of s a"
  proof
    fix a assume "a \<in> snd ` set inp"
    from lt [OF this] show "data_of ?s2 a = data_of s a" unfolding d2 by simp
  qed
  then have e2: "entries_of ?s2 inp = entries_of s inp" by (rule entries_of_cong)
  have gg: "data_of s' ?d = g ?fs"
  proof (cases "inp = []")
    case True
    with si have "s' = ?s2" by simp
    with d2 [of ?d] show ?thesis by simp
  next
    case False
    with dg e2 show ?thesis by simp
  qed
  from j' have tr': "target_ready inp ?d s'" and dl: "listeners_of s' ?d = []"
    and lo: "\<And>a x. a \<in> snd ` set inp \<Longrightarrow> x \<in> set (listeners_of s' a) \<Longrightarrow>
      \<not> is_recompute (closures s' x) \<or> closures s' x = Recompute inp (pure_fn g) ?d"
    unfolding subscribing_def by blast+
  from ex have ex': "\<And>a. a \<in> snd ` set inp \<Longrightarrow>
      \<exists>x \<in> set (listeners_of s' a). closures s' x = Recompute inp (pure_fn g) ?d"
    by force
  have der: "derived inp g ?d s'"
    unfolding derived_def
  proof (intro conjI ballI)
    from tr' show "w_alive (handles s' ?d)" by (simp add: target_ready_def)
    show "?d \<notin> snd ` set inp" by (rule dn)
    show "\<not> is_recompute (closures s' x) \<or> closures s' x = Recompute inp (pure_fn g) ?d"
      if "a \<in> snd ` set inp" "x \<in> set (listeners_of s' a)" for a x
      using that by (rule lo)
    show "\<exists>x \<in> set (listeners_of s' a). closures s' x = Recompute inp (pure_fn g) ?d"
      if "a \<in> snd ` set inp" for a
      using that by (rule ex')
    show "\<not> is_recompute (closures s' x)" if "x \<in> set (listeners_of s' ?d)" for x
      using that dl by simp
    show "primitive (data_of s' a)" if "a \<in> snd ` set inp" for a
      using tr' that unfolding target_ready_def by blast
  qed
  from al have "\<forall>x. x \<noteq> ?d \<longrightarrow> w_alive (handles s' x) = w_alive (handles s x)"
    unfolding a2 by simp
  moreover from da have "\<forall>x. x \<noteq> ?d \<longrightarrow> data_of s' x = data_of s x"
    unfolding d2 by simp
  ultimately show ?thesis using r der gg by blast
qed

lemma sum_fields_primitive: "primitive (sum_fields fs)"
  by (simp add: sum_fields_def split: option.splits jsval.splits)



end
